theory Spec2Isabelle
  imports Main "HOL-Library.Sublist"
begin

section \<open>Python strings and character classes\<close>

text \<open>
  A Python \<open>str\<close> is a sequence of Unicode code points; a code point is modelled as a
  natural number and \<open>len\<close> is \<open>length\<close>.  ASCII literals are written as HOL strings and
  converted with \<open>py\<close>.
\<close>

type_synonym str = "nat list"

definition py :: "string \<Rightarrow> str" where
  "py s = map of_char s"

definition SP :: nat where
  "SP = 32"

definition is_ascii_lower :: "nat \<Rightarrow> bool" where
  "is_ascii_lower c = (97 \<le> c \<and> c \<le> 122)"

definition is_ascii_upper :: "nat \<Rightarrow> bool" where
  "is_ascii_upper c = (65 \<le> c \<and> c \<le> 90)"

definition is_ascii_digit :: "nat \<Rightarrow> bool" where
  "is_ascii_digit c = (48 \<le> c \<and> c \<le> 57)"

definition is_ascii_alnum :: "nat \<Rightarrow> bool" where
  "is_ascii_alnum c = (is_ascii_lower c \<or> is_ascii_upper c \<or> is_ascii_digit c)"

definition is_ascii_space :: "nat \<Rightarrow> bool" where
  "is_ascii_space c = ((9 \<le> c \<and> c \<le> 13) \<or> (28 \<le> c \<and> c \<le> 32))"

text \<open>
  The patterns of \<open>clean\<close> are \<open>str\<close> patterns, so \<open>\w\<close>, \<open>\d\<close>, \<open>\s\<close> and \<open>\b\<close> use
  the Unicode character database of the interpreter: \<open>\w\<close> is \<open>str.isalnum\<close> or the
  underscore, \<open>\d\<close> is the decimal digits, \<open>\s\<close> is \<open>str.isspace\<close>.  The database is not
  part of the repository.  Its ASCII part is written out; the part above code point 127
  is a parameter of the model.  A whitespace character is never alphanumeric.
\<close>

record tables =
  ualnum :: "nat \<Rightarrow> bool"
  udecimal :: "nat \<Rightarrow> bool"
  uspace :: "nat \<Rightarrow> bool"

definition isalnum :: "tables \<Rightarrow> nat \<Rightarrow> bool" where
  "isalnum T c = (if c < 128 then is_ascii_alnum c else ualnum T c)"

definition isword :: "tables \<Rightarrow> nat \<Rightarrow> bool" where
  "isword T c = (isalnum T c \<or> c = 95)"

definition isdecimal :: "tables \<Rightarrow> nat \<Rightarrow> bool" where
  "isdecimal T c = (if c < 128 then is_ascii_digit c else udecimal T c)"

definition isspace :: "tables \<Rightarrow> nat \<Rightarrow> bool" where
  "isspace T c = (if c < 128 then is_ascii_space c else uspace T c \<and> \<not> ualnum T c)"

section \<open>Regular expressions of the \<open>re\<close> module\<close>

text \<open>
  The fragment of \<open>re\<close> that \<open>clean\<close> uses: literals, character classes, greedy bounded
  repetition of a class, the word boundary \<open>\b\<close>, alternation and concatenation.
\<close>

datatype re =
    Lit str
  | Cls "nat \<Rightarrow> bool"
  | Rep "nat \<Rightarrow> bool" nat "nat option"
  | Bnd
  | Alt re re
  | Seq re re

text \<open>
  A position in the subject is the pair of "the character before it is a word character"
  (\<open>False\<close> at the start) and the rest of the subject.  \<open>rmatch\<close> returns the positions
  where a match starting here can end, in the order in which the backtracking matcher
  tries them: the first alternative first, the longest repetition first.
\<close>

type_synonym pos = "bool \<times> str"

definition after :: "tables \<Rightarrow> pos \<Rightarrow> nat \<Rightarrow> pos" where
  "after T q k = (if k = 0 then q else (isword T (snd q ! (k - 1)), drop k (snd q)))"

definition at_boundary :: "tables \<Rightarrow> pos \<Rightarrow> bool" where
  "at_boundary T q = (fst q \<noteq> (case snd q of [] \<Rightarrow> False | c # _ \<Rightarrow> isword T c))"

fun rmatch :: "tables \<Rightarrow> re \<Rightarrow> pos \<Rightarrow> pos list" where
  "rmatch T (Lit w) q = (if prefix w (snd q) then [after T q (length w)] else [])"
| "rmatch T (Cls P) q = (case snd q of [] \<Rightarrow> [] | c # cs \<Rightarrow> if P c then [(isword T c, cs)] else [])"
| "rmatch T (Rep P lo hi) q =
     (let n = length (takeWhile P (snd q));
          n' = (case hi of None \<Rightarrow> n | Some h \<Rightarrow> min h n)
      in map (after T q) (rev [lo ..< Suc n']))"
| "rmatch T Bnd q = (if at_boundary T q then [q] else [])"
| "rmatch T (Alt a b) q = rmatch T a q @ rmatch T b q"
| "rmatch T (Seq a b) q = concat (map (rmatch T b) (rmatch T a q))"

text \<open>
  \<open>re.sub(pattern, repl, string)\<close> with a constant replacement: the subject is scanned
  from the left, the first match at the leftmost position is replaced and the scan resumes
  where the match ended.  After an empty match the next match at the same position must be
  non-empty (\<open>ma\<close>); where nothing matches, the character is copied.
\<close>

function re_sub_from :: "tables \<Rightarrow> re \<Rightarrow> str \<Rightarrow> bool \<Rightarrow> pos \<Rightarrow> str" where
  "re_sub_from T r repl ma q =
     (case filter (\<lambda>q'. \<not> ma \<or> length (snd q') < length (snd q)) (rmatch T r q) of
        q' # _ \<Rightarrow>
          repl @ (if length (snd q') < length (snd q) then re_sub_from T r repl False q'
                  else re_sub_from T r repl True q)
      | [] \<Rightarrow> (case snd q of [] \<Rightarrow> []
               | c # cs \<Rightarrow> c # re_sub_from T r repl False (isword T c, cs)))"
  by pat_completeness auto
termination
proof (relation "measure (\<lambda>(T, r, repl, ma, q). 2 * length (snd q) + (if ma then 0 else 1))",
       goal_cases)
  case 1
  show ?case by simp
next
  case (2 T r repl ma q c cs)
  then show ?case by simp
next
  case (3 T r repl ma q q' qs)
  then show ?case by simp
next
  case (4 T r repl ma q q' qs)
  have "q' \<in> set (filter (\<lambda>q'. \<not> ma \<or> length (snd q') < length (snd q)) (rmatch T r q))"
    unfolding 4(1) by simp
  with 4(2) have "\<not> ma" by simp
  then show ?case by simp
qed

definition re_sub :: "tables \<Rightarrow> re \<Rightarrow> str \<Rightarrow> str \<Rightarrow> str" where
  "re_sub T r repl s = re_sub_from T r repl False (False, s)"


section \<open>String methods\<close>

text \<open>\<open>str.replace(old, new)\<close> for one-character arguments.\<close>

definition replace_char :: "nat \<Rightarrow> nat \<Rightarrow> str \<Rightarrow> str" where
  "replace_char old new s = map (\<lambda>c. if c = old then new else c) s"

text \<open>\<open>str.strip()\<close>: whitespace is removed at both ends.\<close>

fun rstrip :: "(nat \<Rightarrow> bool) \<Rightarrow> str \<Rightarrow> str" where
  "rstrip P [] = []"
| "rstrip P (c # cs) = (let r = rstrip P cs in if r = [] \<and> P c then [] else c # r)"

definition strip :: "tables \<Rightarrow> str \<Rightarrow> str" where
  "strip T s = rstrip (isspace T) (dropWhile (isspace T) s)"

text \<open>\<open>sep.join(xs)\<close>.\<close>

fun join :: "str \<Rightarrow> str list \<Rightarrow> str" where
  "join sep [] = []"
| "join sep [x] = x"
| "join sep (x # y # zs) = x @ sep @ join sep (y # zs)"

text \<open>
  \<open>str.lower()\<close> maps every character in its context (the final sigma depends on its
  neighbours) to one or more characters.  ASCII letters are written out; the mapping of
  the other characters is the parameter \<open>L\<close>.
\<close>

definition ascii_lower :: "nat \<Rightarrow> nat" where
  "ascii_lower c = (if is_ascii_upper c then c + 32 else c)"

definition str_lower :: "(str \<Rightarrow> nat \<Rightarrow> str) \<Rightarrow> str \<Rightarrow> str" where
  "str_lower L s =
     concat (map (\<lambda>i. if s ! i < 128 then [ascii_lower (s ! i)] else L s i) [0 ..< length s])"

text \<open>
  Maximal runs of characters with a property.  \<open>str.split()\<close> without arguments returns
  the runs of non-whitespace characters; the words of a text, in the sense of \<open>\b\<close>, are
  the runs of word characters.
\<close>

function runs :: "(nat \<Rightarrow> bool) \<Rightarrow> str \<Rightarrow> str list" where
  "runs P [] = []"
| "runs P (c # cs) =
     (if P c then (c # takeWhile P cs) # runs P (dropWhile P cs) else runs P cs)"
  by pat_completeness auto
termination
  by (relation "measure (\<lambda>(P, s). length s)") (auto simp: less_Suc_eq_le length_dropWhile_le)

definition py_split :: "tables \<Rightarrow> str \<Rightarrow> str list" where
  "py_split T s = runs (\<lambda>c. \<not> isspace T c) s"

definition toks :: "tables \<Rightarrow> str \<Rightarrow> str list" where
  "toks T s = runs (isword T) s"

section \<open>The pre-processing function\<close>

text \<open>
  \<open>'|'.join(stopwords.words('english'))\<close> inside a group: an alternation of literals,
  tried from the left.  The stopword corpus is not part of the repository; the list is
  the parameter \<open>sw\<close>.  The translation to literals is the pattern that Python compiles
  when no stopword contains a character that is special in a pattern.
\<close>

fun alts :: "str list \<Rightarrow> re" where
  "alts [] = Lit []"
| "alts [w] = Lit w"
| "alts (w # v # ws) = Alt (Lit w) (alts (v # ws))"

text \<open>
  The patterns of \<open>clean\<close>, in the order of its lines:
  \<^verbatim>\<open>(\W| +)\<close>, \<^verbatim>\<open>\s+\<close>, \<^verbatim>\<open>\b\d+\b\<close>, \<^verbatim>\<open>\d+\<close>,
  \<^verbatim>\<open>[^a-zA-Z0-9]+\<close>, \<^verbatim>\<open>\b\w{1,2}\b\<close>,
  \<^verbatim>\<open>\b(...|...)\b\s*\<close> over the stopwords, and \<^verbatim>\<open> +\<close>.
\<close>

definition pat_nonword :: "tables \<Rightarrow> re" where
  "pat_nonword T = Alt (Cls (\<lambda>c. \<not> isword T c)) (Rep (\<lambda>c. c = SP) 1 None)"

definition pat_spaces :: "tables \<Rightarrow> re" where
  "pat_spaces T = Rep (isspace T) 1 None"

definition pat_number :: "tables \<Rightarrow> re" where
  "pat_number T = Seq Bnd (Seq (Rep (isdecimal T) 1 None) Bnd)"

definition pat_digits :: "tables \<Rightarrow> re" where
  "pat_digits T = Rep (isdecimal T) 1 None"

definition pat_special :: re where
  "pat_special = Rep (\<lambda>c. \<not> is_ascii_alnum c) 1 None"

definition pat_short :: "tables \<Rightarrow> re" where
  "pat_short T = Seq Bnd (Seq (Rep (isword T) 1 (Some 2)) Bnd)"

definition pat_stop :: "tables \<Rightarrow> str list \<Rightarrow> re" where
  "pat_stop T sw = Seq Bnd (Seq (alts sw) (Seq Bnd (Rep (isspace T) 0 None)))"

definition pat_blank :: re where
  "pat_blank = Rep (\<lambda>c. c = SP) 1 None"

text \<open>
  \<open>clean(mystr)\<close>: eight substitutions, the replacement of U+00E9 by \<open>e\<close> after
  the fourth, and \<open>strip()\<close> before the last.
\<close>

definition clean :: "tables \<Rightarrow> str list \<Rightarrow> str \<Rightarrow> str" where
  "clean T sw mystr =
     (let s1 = re_sub T (pat_nonword T) [SP] mystr;
          s2 = re_sub T (pat_spaces T) [SP] s1;
          s3 = re_sub T (pat_number T) [] s2;
          s4 = re_sub T (pat_digits T) [] s3;
          s5 = replace_char 233 101 s4;
          s6 = re_sub T pat_special [SP] s5;
          s7 = re_sub T (pat_short T) [] s6;
          s8 = re_sub T (pat_stop T sw) [] s7;
          s9 = strip T s8
      in re_sub T pat_blank [SP] s9)"

text \<open>
  The condition on the stopword list under which \<open>alts\<close> is the compiled pattern: every
  stopword is a non-empty string of lowercase letters and apostrophes, and there is at least
  one.
\<close>

definition plain_words :: "str list \<Rightarrow> bool" where
  "plain_words sw =
     (sw \<noteq> [] \<and> (\<forall>w \<in> set sw. w \<noteq> [] \<and> (\<forall>c \<in> set w. is_ascii_lower c \<or> c = 39)))"

text \<open>
  The English list of the NLTK stopword corpus (179 entries), the instance at which the
  theorems below are evaluated.
\<close>

definition apo :: "string \<Rightarrow> string \<Rightarrow> str" where
  "apo a b = py a @ [39] @ py b"

definition english_stopwords :: "str list" where
  "english_stopwords =
     map py [''i'', ''me'', ''my'', ''myself'', ''we'', ''our'', ''ours'', ''ourselves'', ''you'']
     @ [apo ''you'' ''re'', apo ''you'' ''ve'', apo ''you'' ''ll'', apo ''you'' ''d'']
     @ map py [''your'', ''yours'', ''yourself'', ''yourselves'', ''he'', ''him'', ''his'',
         ''himself'', ''she'']
     @ [apo ''she'' ''s'']
     @ map py [''her'', ''hers'', ''herself'', ''it'']
     @ [apo ''it'' ''s'']
     @ map py [''its'', ''itself'', ''they'', ''them'', ''their'', ''theirs'', ''themselves'',
         ''what'', ''which'', ''who'', ''whom'', ''this'', ''that'']
     @ [apo ''that'' ''ll'']
     @ map py [''these'', ''those'', ''am'', ''is'', ''are'', ''was'', ''were'', ''be'', ''been'',
         ''being'', ''have'', ''has'', ''had'', ''having'', ''do'', ''does'', ''did'', ''doing'',
         ''a'', ''an'', ''the'', ''and'', ''but'', ''if'', ''or'', ''because'', ''as'', ''until'',
         ''while'', ''of'', ''at'', ''by'', ''for'', ''with'', ''about'', ''against'', ''between'',
         ''into'', ''through'', ''during'', ''before'', ''after'', ''above'', ''below'', ''to'',
         ''from'', ''up'', ''down'', ''in'', ''out'', ''on'', ''off'', ''over'', ''under'',
         ''again'', ''further'', ''then'', ''once'', ''here'', ''there'', ''when'', ''where'',
         ''why'', ''how'', ''all'', ''any'', ''both'', ''each'', ''few'', ''more'', ''most'',
         ''other'', ''some'', ''such'', ''no'', ''nor'', ''not'', ''only'', ''own'', ''same'',
         ''so'', ''than'', ''too'', ''very'', ''s'', ''t'', ''can'', ''will'', ''just'', ''don'']
     @ [apo ''don'' ''t'']
     @ map py [''should'']
     @ [apo ''should'' ''ve'']
     @ map py [''now'', ''d'', ''ll'', ''m'', ''o'', ''re'', ''ve'', ''y'', ''ain'', ''aren'']
     @ [apo ''aren'' ''t'', py ''couldn'', apo ''couldn'' ''t'', py ''didn'', apo ''didn'' ''t'',
        py ''doesn'', apo ''doesn'' ''t'', py ''hadn'', apo ''hadn'' ''t'', py ''hasn'',
        apo ''hasn'' ''t'', py ''haven'', apo ''haven'' ''t'', py ''isn'', apo ''isn'' ''t'',
        py ''ma'', py ''mightn'', apo ''mightn'' ''t'', py ''mustn'', apo ''mustn'' ''t'',
        py ''needn'', apo ''needn'' ''t'', py ''shan'', apo ''shan'' ''t'', py ''shouldn'',
        apo ''shouldn'' ''t'', py ''wasn'', apo ''wasn'' ''t'', py ''weren'', apo ''weren'' ''t'',
        py ''won'', apo ''won'' ''t'', py ''wouldn'', apo ''wouldn'' ''t'']"

text \<open>
  A character table for evaluation: the Latin-1 range of the Unicode database, with
  nothing classified above code point 255.
\<close>

definition latin1 :: tables where
  "latin1 =
     \<lparr>ualnum = (\<lambda>c. c \<in> {170, 178, 179, 181, 185, 186, 188, 189, 190}
                  \<or> (192 \<le> c \<and> c \<le> 255 \<and> c \<noteq> 215 \<and> c \<noteq> 247)),
      udecimal = (\<lambda>c. False),
      uspace = (\<lambda>c. c = 133 \<or> c = 160)\<rparr>"


section \<open>The rules of the specification\<close>

text \<open>
  The nine rules of the Cleaner as the specification words them, written as functions on
  strings without regular expressions.  \<open>squeeze P repl\<close> replaces every maximal run of
  characters with the property \<open>P\<close> by \<open>repl\<close>.
\<close>

function squeeze :: "(nat \<Rightarrow> bool) \<Rightarrow> str \<Rightarrow> str \<Rightarrow> str" where
  "squeeze P repl [] = []"
| "squeeze P repl (c # cs) =
     (if P c then repl @ squeeze P repl (dropWhile P cs) else c # squeeze P repl cs)"
  by pat_completeness auto
termination
  by (relation "measure (\<lambda>(P, repl, s). length s)")
     (auto simp: less_Suc_eq_le length_dropWhile_le)

text \<open>
  \<open>tokfilter T keep eat\<close> walks over the words of a text (the maximal runs of word
  characters) and removes the words that \<open>keep\<close> rejects; with \<open>eat\<close> the whitespace
  after a removed word goes as well.
\<close>

function tokfilter :: "tables \<Rightarrow> (str \<Rightarrow> bool) \<Rightarrow> bool \<Rightarrow> str \<Rightarrow> str" where
  "tokfilter T keep eat [] = []"
| "tokfilter T keep eat (c # cs) =
     (if isword T c then
        (if keep (c # takeWhile (isword T) cs)
         then (c # takeWhile (isword T) cs) @ tokfilter T keep eat (dropWhile (isword T) cs)
         else tokfilter T keep eat
                (if eat then dropWhile (isspace T) (dropWhile (isword T) cs)
                 else dropWhile (isword T) cs))
      else c # tokfilter T keep eat cs)"
  by pat_completeness auto
termination
proof (relation "measure (\<lambda>(T, keep, eat, s). length s)", goal_cases)
  case 1
  show ?case by simp
next
  case (2 T keep eat c cs)
  show ?case by (simp add: less_Suc_eq_le length_dropWhile_le)
next
  case (3 T keep eat c cs)
  have "length (dropWhile (isspace T) (dropWhile (isword T) cs)) \<le> length cs"
    by (rule order_trans [OF length_dropWhile_le length_dropWhile_le])
  then show ?case by (simp add: less_Suc_eq_le length_dropWhile_le)
next
  case (4 T keep eat c cs)
  show ?case by simp
qed

definition rule1 :: "tables \<Rightarrow> str \<Rightarrow> str" where
  "rule1 T s = squeeze (\<lambda>c. \<not> isword T c) [SP] s"

definition rule2 :: "tables \<Rightarrow> str \<Rightarrow> str" where
  "rule2 T s = squeeze (isspace T) [SP] s"

definition rule3 :: "tables \<Rightarrow> str \<Rightarrow> str" where
  "rule3 T s = tokfilter T (\<lambda>w. \<not> list_all (isdecimal T) w) False s"

definition rule4 :: "tables \<Rightarrow> str \<Rightarrow> str" where
  "rule4 T s = filter (\<lambda>c. \<not> isdecimal T c) s"

definition rule5 :: "str \<Rightarrow> str" where
  "rule5 s = map (\<lambda>c. if c = 233 then 101 else c) s"

definition rule6 :: "str \<Rightarrow> str" where
  "rule6 s = squeeze (\<lambda>c. \<not> is_ascii_alnum c) [SP] s"

definition rule7 :: "tables \<Rightarrow> str \<Rightarrow> str" where
  "rule7 T s = tokfilter T (\<lambda>w. 2 < length w) False s"

definition rule8 :: "tables \<Rightarrow> str list \<Rightarrow> str \<Rightarrow> str" where
  "rule8 T sw s = tokfilter T (\<lambda>w. w \<notin> set sw) False s"

definition rule9 :: "tables \<Rightarrow> str \<Rightarrow> str" where
  "rule9 T s = squeeze (isspace T) [SP] (strip T s)"

definition spec_clean :: "tables \<Rightarrow> str list \<Rightarrow> str \<Rightarrow> str" where
  "spec_clean T sw s =
     rule9 T (rule8 T sw (rule7 T (rule6 (rule5 (rule4 T (rule3 T (rule2 T (rule1 T s))))))))"


text \<open>The text after the first six rules, on which the word-level rules 7 to 9 work.\<close>

definition prepared :: "tables \<Rightarrow> str \<Rightarrow> str" where
  "prepared T s = rule6 (rule5 (rule4 T (rule1 T s)))"

section \<open>Properties of the Cleaner's output\<close>

definition no_digits :: "tables \<Rightarrow> str \<Rightarrow> bool" where
  "no_digits T s = list_all (\<lambda>c. \<not> isdecimal T c) s"

definition letters_and_spaces :: "str \<Rightarrow> bool" where
  "letters_and_spaces s = list_all (\<lambda>c. is_ascii_lower c \<or> is_ascii_upper c \<or> c = SP) s"

definition lower_and_spaces :: "str \<Rightarrow> bool" where
  "lower_and_spaces s = list_all (\<lambda>c. is_ascii_lower c \<or> c = SP) s"

definition no_upper :: "str \<Rightarrow> bool" where
  "no_upper s = list_all (\<lambda>c. \<not> is_ascii_upper c) s"

definition no_short_token :: "tables \<Rightarrow> str \<Rightarrow> bool" where
  "no_short_token T s = list_all (\<lambda>w. 3 \<le> length w) (py_split T s)"

text \<open>A text composed entirely of stopwords: every whitespace-separated piece is one.\<close>

definition all_stopwords :: "tables \<Rightarrow> str list \<Rightarrow> str \<Rightarrow> bool" where
  "all_stopwords T sw s = list_all (\<lambda>w. w \<in> set sw) (py_split T s)"

text \<open>
  The contractions of the list leave only stopwords and short pieces when the apostrophe
  is taken out (\<open>don't\<close> leaves \<open>don\<close> and \<open>t\<close>).
\<close>

definition apostrophe_closed :: "str list \<Rightarrow> bool" where
  "apostrophe_closed sw =
     list_all (\<lambda>w. list_all (\<lambda>v. 2 < length v \<longrightarrow> v \<in> set sw) (runs is_ascii_lower w)) sw"


text \<open>The words that survive rules 7 and 8.\<close>

definition kept :: "tables \<Rightarrow> str list \<Rightarrow> str \<Rightarrow> str list" where
  "kept T sw s = filter (\<lambda>w. w \<notin> set sw) (filter (\<lambda>w. 2 < length w) (toks T (prepared T s)))"

section \<open>The language model\<close>

text \<open>
  \<open>en_core_web_sm\<close> is a pretrained spaCy pipeline and not part of the repository.  What
  the notebook reads from a \<open>Doc\<close> is modelled: the tokens with their text, trailing
  whitespace and lemma, and the noun chunks as spans of token indices.  The pipeline itself
  is a parameter.  Calling a pipeline on a text longer than its \<open>max_length\<close> raises
  \<open>ValueError\<close>.
\<close>

datatype error = OSError | UnicodeDecodeError | ValueError | IndexError

record token =
  tok_text :: str
  tok_ws :: bool
  tok_lemma :: str

record doc =
  tokens :: "token list"
  noun_chunks :: "(nat \<times> nat) list"

record nlp =
  pipeline :: "str \<Rightarrow> doc"
  max_length :: nat

definition text_with_ws :: "token \<Rightarrow> str" where
  "text_with_ws t = tok_text t @ (if tok_ws t then [SP] else [])"

text \<open>\<open>Span.text\<close>: the text of the tokens of the span without the last trailing space.\<close>

definition span_text :: "doc \<Rightarrow> nat \<times> nat \<Rightarrow> str" where
  "span_text d ch =
     (let span = take (snd ch - fst ch) (drop (fst ch) (tokens d))
      in if span = [] then []
         else concat (map text_with_ws (butlast span)) @ tok_text (last span))"

definition en_core_web_sm_load :: "(str \<Rightarrow> doc) \<Rightarrow> nlp" where
  "en_core_web_sm_load M = \<lparr>pipeline = M, max_length = 1000000\<rparr>"

definition nlp_call :: "nlp \<Rightarrow> str \<Rightarrow> error + doc" where
  "nlp_call n s = (if max_length n < length s then Inl ValueError else Inr (pipeline n s))"

definition lemmaspacy :: "(str \<Rightarrow> doc) \<Rightarrow> str \<Rightarrow> error + str" where
  "lemmaspacy M my_new_str =
     (let nlp = (en_core_web_sm_load M)\<lparr>max_length := 60000000\<rparr>
      in case nlp_call nlp my_new_str of
           Inl e \<Rightarrow> Inl e
         | Inr d \<Rightarrow> Inr (join [SP] (map tok_lemma (tokens d))))"

text \<open>
  What spaCy guarantees of the \<open>Doc\<close> of a text: the tokens with their whitespace spell
  the text, no token is empty, and a noun chunk is a non-empty span of the tokens.
\<close>

definition spacy_doc :: "str \<Rightarrow> doc \<Rightarrow> bool" where
  "spacy_doc s d =
     (concat (map text_with_ws (tokens d)) = s
      \<and> list_all (\<lambda>t. tok_text t \<noteq> []) (tokens d)
      \<and> list_all (\<lambda>ch. fst ch < snd ch \<and> snd ch \<le> length (tokens d)) (noun_chunks d))"

section \<open>The loader and the writer\<close>

text \<open>
  An entry of the input directory: a subdirectory, a file whose bytes decode as UTF-8 to
  a text, or a file whose bytes do not.  The directory is the list of its entries in the
  order of \<open>os.listdir\<close>, or \<open>None\<close> when it does not exist.
\<close>

datatype entry = Subdir | Text str | Undecodable

record world =
  unicode :: tables
  lower_map :: "str \<Rightarrow> nat \<Rightarrow> str"
  stopwords :: "str list"
  model :: "str \<Rightarrow> doc"
  text_files :: "(str \<times> entry) list option"

record state =
  list_documents :: "str list"
  file_names :: "str list"

definition codecs_open :: "world \<Rightarrow> str \<Rightarrow> error + entry" where
  "codecs_open W file =
     (case text_files W of
        None \<Rightarrow> Inl OSError
      | Some dir \<Rightarrow>
          (case map_of dir file of
             None \<Rightarrow> Inl OSError
           | Some Subdir \<Rightarrow> Inl OSError
           | Some (Text s) \<Rightarrow> Inr (Text s)
           | Some Undecodable \<Rightarrow> Inr Undecodable))"

definition corpus_read :: "entry \<Rightarrow> error + str" where
  "corpus_read corpus =
     (case corpus of Text s \<Rightarrow> Inr s | Undecodable \<Rightarrow> Inl UnicodeDecodeError
      | Subdir \<Rightarrow> Inl OSError)"

text \<open>The module-level \<open>nlp\<close> with \<open>nlp.max_length = 6000000\<close>.\<close>

definition global_nlp :: "world \<Rightarrow> nlp" where
  "global_nlp W = (en_core_web_sm_load (model W))\<lparr>max_length := 6000000\<rparr>"

text \<open>The noun extraction loop: every chunk text is appended after a space.\<close>

definition noun_text :: "doc \<Rightarrow> str" where
  "noun_text d =
     foldl (\<lambda>list_element chunk. list_element @ [SP] @ span_text d chunk) [] (noun_chunks d)"

definition extract_nouns :: "world \<Rightarrow> str \<Rightarrow> error + str" where
  "extract_nouns W input_str =
     (case nlp_call (global_nlp W) input_str of
        Inl e \<Rightarrow> Inl e
      | Inr d \<Rightarrow> Inr (noun_text d))"

text \<open>The stages after the Cleaner, and the whole pipeline on the text of one file.\<close>

definition analyse :: "world \<Rightarrow> str \<Rightarrow> error + str" where
  "analyse W input_str =
     (case lemmaspacy (model W) input_str of
        Inl e \<Rightarrow> Inl e
      | Inr lemmas \<Rightarrow> extract_nouns W lemmas)"

definition process_text :: "world \<Rightarrow> str \<Rightarrow> error + str" where
  "process_text W raw =
     analyse W (clean (unicode W) (stopwords W) (str_lower (lower_map W) raw))"

text \<open>
  One iteration of the loader loop.  The file name is appended once the file is open,
  the document once all stages have returned; an exception leaves the state as it is at
  that moment.
\<close>

definition loader_body :: "world \<Rightarrow> state \<Rightarrow> str \<Rightarrow> (error \<times> state) + state" where
  "loader_body W st file =
     (case codecs_open W file of
        Inl e \<Rightarrow> Inl (e, st)
      | Inr corpus \<Rightarrow>
          (let st1 = st\<lparr>file_names := file_names st @ [file]\<rparr>
           in case corpus_read corpus of
                Inl e \<Rightarrow> Inl (e, st1)
              | Inr raw \<Rightarrow>
                  (case process_text W raw of
                     Inl e \<Rightarrow> Inl (e, st1)
                   | Inr list_element \<Rightarrow>
                       Inr (st1\<lparr>list_documents := list_documents st1 @ [list_element]\<rparr>))))"

fun loader_loop :: "world \<Rightarrow> state \<Rightarrow> str list \<Rightarrow> (error \<times> state) + state" where
  "loader_loop W st [] = Inr st"
| "loader_loop W st (file # files) =
     (case loader_body W st file of
        Inl e \<Rightarrow> Inl e
      | Inr st' \<Rightarrow> loader_loop W st' files)"

definition initial :: state where
  "initial = \<lparr>list_documents = [], file_names = []\<rparr>"

definition loader :: "world \<Rightarrow> (error \<times> state) + state" where
  "loader W =
     (case text_files W of
        None \<Rightarrow> Inl (OSError, initial)
      | Some dir \<Rightarrow> loader_loop W initial (map fst dir))"

text \<open>
  The writer loop over \<open>range(len(list_documents))\<close>; the output directory is a map from
  file names to contents, and \<open>open(..., 'w')\<close> creates or overwrites.
\<close>

fun writer_loop :: "state \<Rightarrow> (str \<rightharpoonup> str) \<Rightarrow> nat list \<Rightarrow> error + (str \<rightharpoonup> str)" where
  "writer_loop st out [] = Inr out"
| "writer_loop st out (i # is) =
     (if i < length (file_names st) \<and> i < length (list_documents st)
      then writer_loop st (out(file_names st ! i \<mapsto> list_documents st ! i)) is
      else Inl IndexError)"

definition writer :: "state \<Rightarrow> (str \<rightharpoonup> str) \<Rightarrow> error + (str \<rightharpoonup> str)" where
  "writer st out = writer_loop st out [0 ..< length (list_documents st)]"


text \<open>A file is processed to a document when it opens, decodes and passes all stages.\<close>

definition processed :: "world \<Rightarrow> str \<Rightarrow> str \<Rightarrow> bool" where
  "processed W file d =
     (\<exists>raw. codecs_open W file = Inr (Text raw) \<and> process_text W raw = Inr d)"

text \<open>One write of the writer loop.\<close>

definition put :: "state \<Rightarrow> nat \<Rightarrow> (str \<rightharpoonup> str) \<Rightarrow> (str \<rightharpoonup> str)" where
  "put st i out = out(file_names st ! i \<mapsto> list_documents st ! i)"

text \<open>
  A small stand-in for the pipeline, for evaluation: every whitespace-separated word is
  a token, its own lemma and a noun chunk.
\<close>

definition toy_model :: "str \<Rightarrow> doc" where
  "toy_model s =
     (let ws = py_split latin1 s; n = length ws
      in \<lparr>tokens = map (\<lambda>i. \<lparr>tok_text = ws ! i, tok_ws = (Suc i < n), tok_lemma = ws ! i\<rparr>) [0 ..< n],
          noun_chunks = map (\<lambda>i. (i, Suc i)) [0 ..< n]\<rparr>)"

definition toy_world :: "(str \<times> entry) list \<Rightarrow> world" where
  "toy_world dir =
     \<lparr>unicode = latin1, lower_map = (\<lambda>s i. [s ! i]), stopwords = english_stopwords,
      model = toy_model, text_files = Some dir\<rparr>"


text \<open>Inputs for evaluation: a directory of three entries and a text of 60000001 letters.\<close>

definition example_dir :: "(str \<times> entry) list" where
  "example_dir =
     [(py ''doc1.txt'', Text (py ''The Plants are Growing rapidly in 2021.'')),
      (py ''notes.md'', Text (py ''123 !!! 456'')),
      (py ''empty'', Text [])]"

definition long_text :: str where
  "long_text = replicate 60000001 97"


definition example_state :: state where
  "example_state =
     \<lparr>list_documents = [py '' plants growing rapidly'', [], []],
      file_names = [py ''doc1.txt'', py ''notes.md'', py ''empty'']\<rparr>"

section \<open>The matcher and the scanner\<close>

lemma rmatch_length: "q' \<in> set (rmatch T r q) \<Longrightarrow> length (snd q') \<le> length (snd q)"
proof (induction r arbitrary: q q')
  case (Lit w)
  then show ?case by (auto simp: after_def split: if_splits)
next
  case (Cls P)
  then show ?case by (cases q) (auto split: list.splits if_splits)
next
  case (Rep P lo hi)
  then show ?case by (auto simp: after_def Let_def split: if_splits)
next
  case Bnd
  then show ?case by (auto split: if_splits)
next
  case (Alt a b)
  then show ?case by (cases q, cases q') auto
next
  case (Seq a b)
  from Seq.prems obtain q1 where "q1 \<in> set (rmatch T a q)" "q' \<in> set (rmatch T b q1)"
    by auto
  then show ?case using Seq.IH(1) [of q1 q] Seq.IH(2) [of q' q1] by simp
qed

declare re_sub_from.simps [simp del]

lemma isspace_not_word: "isspace T c \<Longrightarrow> \<not> isword T c"
  by (auto simp: isspace_def isword_def isalnum_def is_ascii_space_def is_ascii_alnum_def
      is_ascii_lower_def is_ascii_upper_def is_ascii_digit_def split: if_splits)

lemma SP_not_word [simp]: "\<not> isword T SP"
  by (simp add: SP_def isword_def isalnum_def is_ascii_alnum_def
      is_ascii_lower_def is_ascii_upper_def is_ascii_digit_def)

lemma SP_space [simp]: "isspace T SP"
  by (simp add: SP_def isspace_def is_ascii_space_def)

lemma ascii_alnum_word: "is_ascii_alnum c \<Longrightarrow> isword T c"
  by (auto simp: isword_def isalnum_def is_ascii_alnum_def
      is_ascii_lower_def is_ascii_upper_def is_ascii_digit_def)

lemma re_sub_from_hit:
  assumes "rmatch T r q = q' # qs" and "length (snd q') < length (snd q)"
  shows "re_sub_from T r repl ma q = repl @ re_sub_from T r repl False q'"
  using assms by (subst re_sub_from.simps) simp

lemma re_sub_from_miss:
  assumes "rmatch T r q = []"
  shows "re_sub_from T r repl ma q =
    (case snd q of [] \<Rightarrow> [] | c # cs \<Rightarrow> c # re_sub_from T r repl False (isword T c, cs))"
  using assms by (subst re_sub_from.simps) simp

lemma re_sub_from_Nil:
  assumes "rmatch T r (pw, []) = []"
  shows "re_sub_from T r repl ma (pw, []) = []"
  using re_sub_from_miss [OF assms] by simp

lemma re_sub_from_copy:
  assumes "rmatch T r (pw, c # cs) = []"
  shows "re_sub_from T r repl ma (pw, c # cs) = c # re_sub_from T r repl False (isword T c, cs)"
  using re_sub_from_miss [OF assms] by simp

lemma dropWhile_as_drop: "dropWhile P xs = drop (length (takeWhile P xs)) xs"
  by (induction xs) auto

lemma rmatch_Rep1_Nil: "rmatch T (Rep P (Suc 0) None) (pw, []) = []"
  by simp

lemma rmatch_Rep1_miss: "\<not> P c \<Longrightarrow> rmatch T (Rep P (Suc 0) None) (pw, c # cs) = []"
  by simp

lemma rmatch_Rep1_hit:
  "P c \<Longrightarrow> \<exists>b qs. rmatch T (Rep P (Suc 0) None) (pw, c # cs) = (b, dropWhile P cs) # qs"
  by (simp add: after_def dropWhile_as_drop)

lemma re_sub_from_Rep1:
  "re_sub_from T (Rep P (Suc 0) None) repl ma (pw, s) = squeeze P repl s"
proof (induction P repl s arbitrary: pw ma rule: squeeze.induct)
  case (1 P repl)
  show ?case by (simp add: re_sub_from_Nil [OF rmatch_Rep1_Nil])
next
  case (2 P repl c cs)
  show ?case
  proof (cases "P c")
    case True
    from True rmatch_Rep1_hit [of P c T pw cs] obtain b qs
      where m: "rmatch T (Rep P (Suc 0) None) (pw, c # cs) = (b, dropWhile P cs) # qs"
      by blast
    have len: "length (snd (b, dropWhile P cs)) < length (snd (pw, c # cs))"
      by (simp add: less_Suc_eq_le length_dropWhile_le)
    show ?thesis
      using re_sub_from_hit [OF m len, of repl ma] True "2.IH"(1) by simp
  next
    case False
    show ?thesis
      using re_sub_from_copy [of T "Rep P (Suc 0) None" pw c cs repl ma]
        rmatch_Rep1_miss [of P c T pw cs] False "2.IH"(2)
      by simp
  qed
qed

lemma re_sub_Rep1: "re_sub T (Rep P (Suc 0) None) repl s = squeeze P repl s"
  by (simp add: re_sub_def re_sub_from_Rep1)

lemma re_sub_from_nonword:
  "re_sub_from T (pat_nonword T) [SP] ma (pw, s) = map (\<lambda>c. if isword T c then c else SP) s"
proof (induction s arbitrary: pw ma)
  case Nil
  have "rmatch T (pat_nonword T) (pw, []) = []" by (simp add: pat_nonword_def)
  from re_sub_from_Nil [OF this] show ?case by simp
next
  case (Cons c cs)
  show ?case
  proof (cases "isword T c")
    case True
    then have "c \<noteq> SP" by auto
    with True have "rmatch T (pat_nonword T) (pw, c # cs) = []"
      by (simp add: pat_nonword_def)
    from re_sub_from_copy [OF this] Cons True show ?thesis by simp
  next
    case False
    then obtain qs where m: "rmatch T (pat_nonword T) (pw, c # cs) = (False, cs) # qs"
      by (simp add: pat_nonword_def)
    have "length (snd (False, cs)) < length (snd (pw, c # cs))" by simp
    from re_sub_from_hit [OF m this] Cons False show ?thesis by simp
  qed
qed

lemma re_sub_nonword:
  "re_sub T (pat_nonword T) [SP] s = map (\<lambda>c. if isword T c then c else SP) s"
  by (simp add: re_sub_def re_sub_from_nonword)

subsection \<open>Numbers, short words and stopwords\<close>

lemma take_takeWhile_all: "k \<le> length (takeWhile P s) \<Longrightarrow> \<forall>c \<in> set (take k s). P c"
proof -
  assume k: "k \<le> length (takeWhile P s)"
  have "take k s = take k (takeWhile P s @ dropWhile P s)" by simp
  also have "\<dots> = take k (takeWhile P s)" using k by (simp del: takeWhile_dropWhile_id)
  finally have "set (take k s) \<subseteq> set (takeWhile P s)" by (simp add: set_take_subset)
  then show ?thesis by (auto dest: set_takeWhileD)
qed

lemma rmatch_Rep_mem:
  assumes "q2 \<in> set (rmatch T (Rep P lo hi) q1)"
  shows "\<exists>k. q2 = after T q1 k \<and> lo \<le> k \<and> k \<le> length (takeWhile P (snd q1))"
  using assms by (fastforce simp: Let_def less_Suc_eq_le simp del: upt_Suc split: option.splits)

lemma rmatch_number_drop:
  assumes "q' \<in> set (rmatch T (pat_number T) q)"
  shows "\<exists>k. 0 < k \<and> k \<le> length (takeWhile (isdecimal T) (snd q)) \<and> snd q' = drop k (snd q)"
proof -
  from assms obtain q1 q2 where 1: "q1 \<in> set (rmatch T Bnd q)"
    and 2: "q2 \<in> set (rmatch T (Rep (isdecimal T) 1 None) q1)"
    and 3: "q' \<in> set (rmatch T Bnd q2)"
    by (auto simp: pat_number_def)
  from 1 have q1: "q1 = q" by (simp split: if_splits)
  from 3 have q2: "q' = q2" by (simp split: if_splits)
  from rmatch_Rep_mem [OF 2] obtain k
    where k: "q2 = after T q1 k" "0 < k" "k \<le> length (takeWhile (isdecimal T) (snd q1))"
    by auto
  from k(1,2) have "snd q2 = drop k (snd q1)" by (simp add: after_def)
  with k q1 q2 show ?thesis by auto
qed

lemma re_sub_from_number:
  "filter (\<lambda>c. \<not> isdecimal T c) (re_sub_from T (pat_number T) [] ma (pw, s))
   = filter (\<lambda>c. \<not> isdecimal T c) s"
proof (induction "length s" arbitrary: s pw ma rule: less_induct)
  case less
  show ?case
  proof (cases "rmatch T (pat_number T) (pw, s)")
    case Nil
    show ?thesis
    proof (cases s)
      case Nil' : Nil
      with Nil re_sub_from_Nil [of T "pat_number T" pw "[]" ma] show ?thesis by simp
    next
      case (Cons c cs)
      with Nil re_sub_from_copy [of T "pat_number T" pw c cs "[]" ma] less [of cs]
      show ?thesis by simp
    qed
  next
    case (Cons q' qs)
    then have "q' \<in> set (rmatch T (pat_number T) (pw, s))" by simp
    from rmatch_number_drop [OF this] obtain k
      where k: "0 < k" "k \<le> length (takeWhile (isdecimal T) s)" "snd q' = drop k s"
      by auto
    have "length (takeWhile (isdecimal T) s) \<le> length s" by (rule length_takeWhile_le)
    with k have len: "length (snd q') < length (snd (pw, s))" by simp
    have dec: "\<forall>c \<in> set (take k s). isdecimal T c" using k(2) by (rule take_takeWhile_all)
    have "filter (\<lambda>c. \<not> isdecimal T c) s
        = filter (\<lambda>c. \<not> isdecimal T c) (take k s @ drop k s)" by simp
    also have "\<dots> = filter (\<lambda>c. \<not> isdecimal T c) (drop k s)"
      using dec unfolding filter_append by (simp add: filter_empty_conv)
    finally have split: "filter (\<lambda>c. \<not> isdecimal T c) s
        = filter (\<lambda>c. \<not> isdecimal T c) (drop k s)" .
    obtain b where q': "q' = (b, drop k s)" using k(3) by (cases q') simp
    have "length (drop k s) < length s" using len q' by simp
    from less [OF this, of False b] re_sub_from_hit [OF Cons len, of "[]" ma] split q'
    show ?thesis by simp
  qed
qed

lemma rmatch_Bnd_inword: "isword T c \<Longrightarrow> rmatch T (Seq Bnd r) (True, c # cs) = []"
  by (simp add: at_boundary_def)

lemma rmatch_Bnd_gap: "\<not> isword T c \<Longrightarrow> rmatch T (Seq Bnd r) (False, c # cs) = []"
  by (simp add: at_boundary_def)

lemma rmatch_Bnd_end: "rmatch T (Seq Bnd r) (False, []) = []"
  by (simp add: at_boundary_def)

lemma inword_skip:
  "re_sub_from T (Seq Bnd r) repl False (True, s)
   = takeWhile (isword T) s @ re_sub_from T (Seq Bnd r) repl False (True, dropWhile (isword T) s)"
proof (induction s)
  case Nil
  show ?case by simp
next
  case (Cons c cs)
  show ?case
  proof (cases "isword T c")
    case True
    have "rmatch T (Seq Bnd r) (True, c # cs) = []" using True by (rule rmatch_Bnd_inword)
    then have "re_sub_from T (Seq Bnd r) repl False (True, c # cs)
        = c # re_sub_from T (Seq Bnd r) repl False (isword T c, cs)"
      by (rule re_sub_from_copy)
    with True Cons show ?thesis by simp
  next
    case False
    then show ?thesis by simp
  qed
qed

lemma gap_copy:
  assumes "\<not> isword T c"
  shows "re_sub_from T (Seq Bnd r) repl False (False, c # cs)
       = c # re_sub_from T (Seq Bnd r) repl False (False, cs)"
proof -
  have "rmatch T (Seq Bnd r) (False, c # cs) = []" using assms by (rule rmatch_Bnd_gap)
  then have "re_sub_from T (Seq Bnd r) repl False (False, c # cs)
      = c # re_sub_from T (Seq Bnd r) repl False (isword T c, cs)"
    by (rule re_sub_from_copy)
  with assms show ?thesis by simp
qed

lemma end_stop: "re_sub_from T (Seq Bnd r) repl False (False, []) = []"
  by (rule re_sub_from_Nil) (rule rmatch_Bnd_end)

lemma short_norm:
  assumes "s = [] \<or> \<not> isword T (hd s)"
  shows "re_sub_from T (pat_short T) [] False (True, s)
       = re_sub_from T (pat_short T) [] False (False, s)"
proof (cases s)
  case Nil
  have "rmatch T (pat_short T) (True, []) = []" by (simp add: pat_short_def)
  then have "re_sub_from T (pat_short T) [] False (True, []) = []" by (rule re_sub_from_Nil)
  moreover have "re_sub_from T (pat_short T) [] False (False, []) = []"
    unfolding pat_short_def by (rule end_stop)
  ultimately show ?thesis using Nil by simp
next
  case (Cons c cs)
  with assms have nw: "\<not> isword T c" by simp
  then have "rmatch T (pat_short T) (True, c # cs) = []" by (simp add: pat_short_def)
  then have "re_sub_from T (pat_short T) [] False (True, c # cs)
      = c # re_sub_from T (pat_short T) [] False (isword T c, cs)"
    by (rule re_sub_from_copy)
  moreover have "re_sub_from T (pat_short T) [] False (False, c # cs)
      = c # re_sub_from T (pat_short T) [] False (False, cs)"
    unfolding pat_short_def using nw by (rule gap_copy)
  ultimately show ?thesis using Cons nw by simp
qed

lemma short_token:
  assumes "isword T c"
  shows "re_sub_from T (pat_short T) [] False (False, c # cs)
       = (if 2 < length (c # takeWhile (isword T) cs) then c # takeWhile (isword T) cs else [])
         @ re_sub_from T (pat_short T) [] False (True, dropWhile (isword T) cs)"
proof -
  consider (a) "cs = [] \<or> \<not> isword T (hd cs)"
    | (b) c1 cs1 where "cs = c1 # cs1" "isword T c1" "cs1 = [] \<or> \<not> isword T (hd cs1)"
    | (c) c1 c2 cs2 where "cs = c1 # c2 # cs2" "isword T c1" "isword T c2"
    by (cases cs; cases "tl cs") auto
  then show ?thesis
  proof cases
    case a
    then have tw: "takeWhile (isword T) cs = []" "dropWhile (isword T) cs = cs"
      by (cases cs; simp)+
    have m: "rmatch T (pat_short T) (False, c # cs) = [(True, cs)]"
      using assms a tw by (cases cs) (auto simp: pat_short_def at_boundary_def after_def)
    have "length (snd (True, cs)) < length (snd (False, c # cs))" by simp
    from re_sub_from_hit [OF m this] tw show ?thesis by simp
  next
    case b
    then have tw: "takeWhile (isword T) cs = [c1]" "dropWhile (isword T) cs = cs1"
      by (cases cs1; simp)+
    have "\<exists>qs. rmatch T (pat_short T) (False, c # cs) = (True, cs1) # qs"
      using assms b tw by (cases cs1) (auto simp: pat_short_def at_boundary_def after_def)
    then obtain qs where m: "rmatch T (pat_short T) (False, c # cs) = (True, cs1) # qs" ..
    have "length (snd (True, cs1)) < length (snd (False, c # cs))" using b by simp
    from re_sub_from_hit [OF m this] tw show ?thesis by simp
  next
    case c
    have m: "rmatch T (pat_short T) (False, c # cs) = []"
      using assms c by (auto simp: pat_short_def at_boundary_def after_def)
    have long: "2 < length (c # takeWhile (isword T) cs)" using c by simp
    have "re_sub_from T (pat_short T) [] False (False, c # cs)
        = c # re_sub_from T (pat_short T) [] False (isword T c, cs)"
      using m by (rule re_sub_from_copy)
    also have "re_sub_from T (pat_short T) [] False (isword T c, cs)
        = takeWhile (isword T) cs
          @ re_sub_from T (pat_short T) [] False (True, dropWhile (isword T) cs)"
      unfolding pat_short_def using assms by (simp add: inword_skip [symmetric])
    finally show ?thesis using long by simp
  qed
qed

lemma dropWhile_head: "dropWhile P xs = [] \<or> \<not> P (hd (dropWhile P xs))"
  using hd_dropWhile [of P xs] by blast

lemma re_sub_from_short:
  "re_sub_from T (pat_short T) [] False (False, s) = tokfilter T (\<lambda>w. 2 < length w) False s"
proof (induction "length s" arbitrary: s rule: less_induct)
  case less
  show ?case
  proof (cases s)
    case Nil
    then show ?thesis by (simp add: pat_short_def end_stop)
  next
    case (Cons c cs)
    show ?thesis
    proof (cases "isword T c")
      case True
      have "length (dropWhile (isword T) cs) < length s"
        using Cons by (simp add: less_Suc_eq_le length_dropWhile_le)
      from less [OF this] short_token [OF True, of cs]
        short_norm [OF dropWhile_head [of "isword T" cs]] True Cons
      show ?thesis by simp
    next
      case False
      have "length cs < length s" using Cons by simp
      from less [OF this] False Cons
      show ?thesis by (simp add: pat_short_def gap_copy)
    qed
  qed
qed

lemma re_sub_short: "re_sub T (pat_short T) [] s = rule7 T s"
  by (simp add: re_sub_def re_sub_from_short rule7_def)

lemma rmatch_alts:
  "sw \<noteq> [] \<Longrightarrow>
   rmatch T (alts sw) q = map (\<lambda>v. after T q (length v)) (filter (\<lambda>v. prefix v (snd q)) sw)"
  by (induction sw rule: alts.induct) auto

lemma lower_word: "is_ascii_lower c \<Longrightarrow> isword T c"
  by (rule ascii_alnum_word) (simp add: is_ascii_alnum_def)

lemma no_stop_prefix:
  assumes "plain_words sw" and "39 \<notin> set s" and "s = [] \<or> \<not> isword T (hd s)"
  shows "filter (\<lambda>v. prefix v s) sw = []"
proof -
  have "\<not> prefix v s" if v: "v \<in> set sw" for v
  proof
    assume p: "prefix v s"
    from v assms(1) have ne: "v \<noteq> []" and ch: "\<forall>c \<in> set v. is_ascii_lower c \<or> c = 39"
      by (auto simp: plain_words_def)
    from ne obtain a v' where vv: "v = a # v'" by (cases v) auto
    with p obtain s' where ss: "s = a # s'" by (cases s) auto
    from ch vv have "is_ascii_lower a \<or> a = 39" by simp
    with assms(2,3) ss show False by (auto dest: lower_word)
  qed
  then show ?thesis by (simp add: filter_empty_conv)
qed

lemma rmatch_stop_unfold:
  assumes "sw \<noteq> []"
  shows "rmatch T (pat_stop T sw) q =
    (if at_boundary T q
     then concat (map (\<lambda>v. rmatch T (Seq Bnd (Rep (isspace T) 0 None)) (after T q (length v)))
                      (filter (\<lambda>v. prefix v (snd q)) sw))
     else [])"
  using assms by (simp add: pat_stop_def rmatch_alts comp_def)

lemma stop_norm:
  assumes "plain_words sw" and "39 \<notin> set s" and "s = [] \<or> \<not> isword T (hd s)"
  shows "re_sub_from T (pat_stop T sw) [] False (True, s)
       = re_sub_from T (pat_stop T sw) [] False (False, s)"
proof -
  from assms(1) have ne: "sw \<noteq> []" by (simp add: plain_words_def)
  have m: "rmatch T (pat_stop T sw) (True, s) = []"
    using no_stop_prefix [OF assms] by (simp add: rmatch_stop_unfold [OF ne])
  show ?thesis
  proof (cases s)
    case Nil
    from m Nil have "re_sub_from T (pat_stop T sw) [] False (True, s) = []"
      by (simp add: re_sub_from_Nil)
    with Nil show ?thesis by (simp add: pat_stop_def end_stop)
  next
    case (Cons c cs)
    with assms(3) have nw: "\<not> isword T c" by simp
    from m Cons have "re_sub_from T (pat_stop T sw) [] False (True, s)
        = c # re_sub_from T (pat_stop T sw) [] False (isword T c, cs)"
      by (simp add: re_sub_from_copy)
    with nw Cons show ?thesis by (simp add: pat_stop_def gap_copy)
  qed
qed

lemma prefix_takeWhile: "prefix v s \<Longrightarrow> \<forall>x \<in> set v. P x \<Longrightarrow> prefix v (takeWhile P s)"
  by (auto simp: prefix_def takeWhile_append2)

lemma concat_map_first:
  assumes "\<forall>v \<in> set xs. v \<noteq> w \<longrightarrow> F v = []" and "w \<in> set xs" and "F w = y # ys"
  shows "\<exists>qs. concat (map F xs) = y # qs"
  using assms by (induction xs) auto

lemma nth_takeWhile_holds: "j < length (takeWhile P xs) \<Longrightarrow> P (xs ! j)"
  by (metis takeWhile_nth nth_mem set_takeWhileD)

lemma rmatch_tail_spaces:
  assumes "r = [] \<or> \<not> isword T (hd r)"
  shows "\<exists>b qs. rmatch T (Seq Bnd (Rep (isspace T) 0 None)) (True, r)
            = (b, dropWhile (isspace T) r) # qs
          \<and> (b \<longrightarrow> dropWhile (isspace T) r = r)"
proof -
  have bd: "at_boundary T (True, r)" using assms by (cases r) (auto simp: at_boundary_def)
  show ?thesis
  proof (cases "takeWhile (isspace T) r = []")
    case True
    then have "dropWhile (isspace T) r = r" by (cases r) (auto split: if_splits)
    with bd True show ?thesis by (auto simp: after_def)
  next
    case False
    let ?m = "length (takeWhile (isspace T) r)"
    from False have pos: "0 < ?m" by simp
    have "?m - 1 < length (takeWhile (isspace T) r)" using pos by simp
    then have "isspace T (r ! (?m - 1))" by (rule nth_takeWhile_holds)
    then have "\<not> isword T (r ! (?m - 1))" by (rule isspace_not_word)
    with bd pos show ?thesis by (auto simp: after_def dropWhile_as_drop Let_def)
  qed
qed

lemma stop_token:
  assumes pl: "plain_words sw" and ap: "39 \<notin> set (c # cs)" and wc: "isword T c"
  shows "re_sub_from T (pat_stop T sw) [] False (False, c # cs)
       = (if c # takeWhile (isword T) cs \<in> set sw
          then re_sub_from T (pat_stop T sw) [] False
                 (False, dropWhile (isspace T) (dropWhile (isword T) cs))
          else (c # takeWhile (isword T) cs)
               @ re_sub_from T (pat_stop T sw) [] False (False, dropWhile (isword T) cs))"
proof -
  let ?w = "c # takeWhile (isword T) cs"
  let ?r = "dropWhile (isword T) cs"
  let ?q = "(False, c # cs)"
  let ?F = "\<lambda>v. rmatch T (Seq Bnd (Rep (isspace T) 0 None)) (after T ?q (length v))"
  from pl have ne: "sw \<noteq> []" by (simp add: plain_words_def)
  have bq: "at_boundary T ?q" using wc by (simp add: at_boundary_def)
  have m: "rmatch T (pat_stop T sw) ?q = concat (map ?F (filter (\<lambda>v. prefix v (c # cs)) sw))"
    using bq by (simp add: rmatch_stop_unfold [OF ne])
  have split: "c # cs = ?w @ ?r" by simp
  have rhead: "?r = [] \<or> \<not> isword T (hd ?r)" by (rule dropWhile_head)
  have apr: "39 \<notin> set ?r" using ap by (auto dest: set_dropWhileD)
  have other: "?F v = []" if v: "v \<in> set sw" "prefix v (c # cs)" "v \<noteq> ?w" for v
  proof -
    from v(1) pl have vne: "v \<noteq> []" and ch: "\<forall>x \<in> set v. is_ascii_lower x \<or> x = 39"
      by (auto simp: plain_words_def)
    from v(2) have "set v \<subseteq> set (c # cs)" by (rule set_mono_prefix)
    with ap ch have "\<forall>x \<in> set v. is_ascii_lower x" by auto
    then have allw: "\<forall>x \<in> set v. isword T x" by (auto dest: lower_word)
    with v(2) have "prefix v (takeWhile (isword T) (c # cs))" by (rule prefix_takeWhile)
    with wc have pw: "prefix v ?w" by simp
    with v(3) obtain a z where w: "?w = v @ a # z" by (auto simp: prefix_def) (metis list.exhaust)
    have "a \<in> set ?w" by (subst w) simp
    then have aw: "isword T a" using wc by (auto dest: set_takeWhileD)
    have "c # cs = v @ a # (z @ ?r)" using split w by (metis append.assoc append_Cons)
    then have dr: "drop (length v) (c # cs) = a # (z @ ?r)" by (metis append_eq_conv_conj)
    have "(c # cs) ! (length v - 1) = v ! (length v - 1)"
      using v(2) vne by (auto simp: prefix_def nth_append)
    moreover have "v ! (length v - 1) \<in> set v" using vne by simp
    ultimately have "isword T ((c # cs) ! (length v - 1))" using allw by metis
    with dr aw vne have "\<not> at_boundary T (after T ?q (length v))"
      by (simp add: after_def at_boundary_def)
    then show ?thesis by simp
  qed
  show ?thesis
  proof (cases "?w \<in> set sw")
    case True
    have aft: "after T ?q (length ?w) = (True, ?r)"
    proof -
      have "length ?w - 1 < length (takeWhile (isword T) (c # cs))" using wc by simp
      then have "isword T ((c # cs) ! (length ?w - 1))" by (rule nth_takeWhile_holds)
      moreover have "drop (length ?w) (c # cs) = ?r" by (simp add: dropWhile_as_drop)
      ultimately show ?thesis by (simp add: after_def)
    qed
    from rmatch_tail_spaces [OF rhead] obtain b qs
      where t: "rmatch T (Seq Bnd (Rep (isspace T) 0 None)) (True, ?r)
                = (b, dropWhile (isspace T) ?r) # qs"
        and bb: "b \<longrightarrow> dropWhile (isspace T) ?r = ?r"
      by blast
    have Fw: "?F ?w = (b, dropWhile (isspace T) ?r) # qs" using aft t by simp
    have win: "?w \<in> set (filter (\<lambda>v. prefix v (c # cs)) sw)"
    proof -
      have "prefix ?w (c # cs)" by (simp add: takeWhile_is_prefix)
      with True show ?thesis by simp
    qed
    have oth: "\<forall>v \<in> set (filter (\<lambda>v. prefix v (c # cs)) sw). v \<noteq> ?w \<longrightarrow> ?F v = []"
      using other by simp
    from concat_map_first [of "filter (\<lambda>v. prefix v (c # cs)) sw" ?w ?F, OF oth win Fw] m
    obtain qs' where hit: "rmatch T (pat_stop T sw) ?q = (b, dropWhile (isspace T) ?r) # qs'"
      by auto
    have "length (dropWhile (isspace T) ?r) \<le> length cs"
      by (rule order_trans [OF length_dropWhile_le length_dropWhile_le])
    then have len: "length (snd (b, dropWhile (isspace T) ?r)) < length (snd ?q)" by simp
    have step: "re_sub_from T (pat_stop T sw) [] False ?q
        = re_sub_from T (pat_stop T sw) [] False (b, dropWhile (isspace T) ?r)"
      using re_sub_from_hit [OF hit len, of "[]" False] by simp
    have "re_sub_from T (pat_stop T sw) [] False (b, dropWhile (isspace T) ?r)
        = re_sub_from T (pat_stop T sw) [] False (False, dropWhile (isspace T) ?r)"
    proof (cases b)
      case True
      with bb have "dropWhile (isspace T) ?r = ?r" by simp
      with True stop_norm [OF pl apr rhead] show ?thesis by simp
    next
      case False
      then show ?thesis by simp
    qed
    with step True show ?thesis by simp
  next
    case False
    have "\<forall>v \<in> set (filter (\<lambda>v. prefix v (c # cs)) sw). ?F v = []"
      using other False by auto
    with m have miss: "rmatch T (pat_stop T sw) ?q = []" by simp
    have "re_sub_from T (pat_stop T sw) [] False ?q
        = c # re_sub_from T (pat_stop T sw) [] False (isword T c, cs)"
      using miss by (rule re_sub_from_copy)
    also have "re_sub_from T (pat_stop T sw) [] False (isword T c, cs)
        = takeWhile (isword T) cs @ re_sub_from T (pat_stop T sw) [] False (True, ?r)"
      unfolding pat_stop_def using wc by (simp add: inword_skip [symmetric])
    also have "re_sub_from T (pat_stop T sw) [] False (True, ?r)
        = re_sub_from T (pat_stop T sw) [] False (False, ?r)"
      using pl apr rhead by (rule stop_norm)
    finally show ?thesis using False by simp
  qed
qed

lemma re_sub_from_stop:
  assumes "plain_words sw" and "39 \<notin> set s"
  shows "re_sub_from T (pat_stop T sw) [] False (False, s)
       = tokfilter T (\<lambda>w. w \<notin> set sw) True s"
  using assms(2)
proof (induction "length s" arbitrary: s rule: less_induct)
  case less
  show ?case
  proof (cases s)
    case Nil
    then show ?thesis by (simp add: pat_stop_def end_stop)
  next
    case (Cons c cs)
    show ?thesis
    proof (cases "isword T c")
      case True
      have l1: "length (dropWhile (isword T) cs) < length s"
        using Cons by (simp add: less_Suc_eq_le length_dropWhile_le)
      have "length (dropWhile (isspace T) (dropWhile (isword T) cs)) \<le> length cs"
        by (rule order_trans [OF length_dropWhile_le length_dropWhile_le])
      then have l2: "length (dropWhile (isspace T) (dropWhile (isword T) cs)) < length s"
        using Cons by simp
      have a1: "39 \<notin> set (dropWhile (isword T) cs)"
        using less.prems Cons by (auto dest: set_dropWhileD)
      have a2: "39 \<notin> set (dropWhile (isspace T) (dropWhile (isword T) cs))"
        using a1 by (auto dest: set_dropWhileD)
      have a0: "39 \<notin> set (c # cs)" using less.prems Cons by simp
      from less.hyps [OF l1 a1] less.hyps [OF l2 a2] stop_token [OF assms(1) a0 True] True Cons
      show ?thesis by simp
    next
      case False
      have "length cs < length s" using Cons by simp
      moreover have "39 \<notin> set cs" using less.prems Cons by simp
      ultimately show ?thesis using less.hyps [of cs] False Cons
        by (simp add: pat_stop_def gap_copy)
    qed
  qed
qed

section \<open>Strings\<close>

subsection \<open>squeeze\<close>

lemma squeeze_cong:
  "\<forall>c \<in> set s. P c = Q c \<Longrightarrow> squeeze P r s = squeeze Q r s"
proof (induction "length s" arbitrary: s rule: less_induct)
  case less
  show ?case
  proof (cases s)
    case Nil
    then show ?thesis by simp
  next
    case (Cons c cs)
    have dw: "dropWhile P cs = dropWhile Q cs"
      using less.prems Cons by (intro dropWhile_cong) auto
    have l1: "length (dropWhile Q cs) < length s"
      using Cons by (simp add: less_Suc_eq_le length_dropWhile_le)
    have a1: "\<forall>c \<in> set (dropWhile Q cs). P c = Q c"
      using less.prems Cons by (auto dest: set_dropWhileD)
    have l2: "length cs < length s" using Cons by simp
    have a2: "\<forall>c \<in> set cs. P c = Q c" using less.prems Cons by simp
    from less.hyps [OF l1 a1] less.hyps [OF l2 a2] dw less.prems Cons show ?thesis by simp
  qed
qed

lemma squeeze_append_clean:
  "\<forall>c \<in> set w. \<not> P c \<Longrightarrow> squeeze P r (w @ x) = w @ squeeze P r x"
  by (induction w) auto

lemma squeeze_clean: "\<forall>c \<in> set s. \<not> P c \<Longrightarrow> squeeze P r s = s"
  using squeeze_append_clean [of s P r "[]"] by simp

lemma squeeze_filter: "squeeze P [] s = filter (\<lambda>c. \<not> P c) s"
proof (induction P "[] :: nat list" s rule: squeeze.induct)
  case (1 P)
  show ?case by simp
next
  case (2 P c cs)
  have "filter (\<lambda>c. \<not> P c) cs = filter (\<lambda>c. \<not> P c) (takeWhile P cs @ dropWhile P cs)"
    by simp
  also have "\<dots> = filter (\<lambda>c. \<not> P c) (dropWhile P cs)"
    unfolding filter_append by (simp add: filter_empty_conv) (auto dest: set_takeWhileD)
  finally show ?case using 2 by simp
qed

lemma set_squeeze: "set (squeeze P r s) \<subseteq> {c \<in> set s. \<not> P c} \<union> set r"
proof (induction P r s rule: squeeze.induct)
  case (1 P r)
  show ?case by simp
next
  case (2 P r c cs)
  show ?case
  proof (cases "P c")
    case True
    with 2 show ?thesis by (auto dest: set_dropWhileD)
  next
    case False
    with 2 show ?thesis by auto
  qed
qed

lemma squeeze_head_word:
  "s = [] \<or> \<not> P (hd s) \<Longrightarrow> squeeze P r s = [] \<or> \<not> P (hd (squeeze P r s))"
  by (cases s) auto

lemma squeeze_head_nonword:
  "s = [] \<or> \<not> isword T (hd s) \<Longrightarrow>
   squeeze P [SP] s = [] \<or> \<not> isword T (hd (squeeze P [SP] s))"
  by (cases s) auto

lemma squeeze_map_nonword:
  "squeeze (isspace T) [SP] (map (\<lambda>c. if isword T c then c else SP) s)
   = squeeze (\<lambda>c. \<not> isword T c) [SP] s"
proof (induction "\<lambda>c. \<not> isword T c" "[SP]" s rule: squeeze.induct)
  case 1
  show ?case by simp
next
  case (2 c cs)
  let ?f = "\<lambda>c. if isword T c then c else SP"
  have sp: "isspace T (?f x) = (\<not> isword T x)" for x
    by (auto dest: isspace_not_word)
  have "dropWhile (isspace T) (map ?f cs) = map ?f (dropWhile (isspace T \<circ> ?f) cs)"
    by (rule dropWhile_map)
  also have "isspace T \<circ> ?f = (\<lambda>c. \<not> isword T c)" using sp by (auto simp: fun_eq_iff)
  finally have dw: "dropWhile (isspace T) (map ?f cs) = map ?f (dropWhile (\<lambda>c. \<not> isword T c) cs)" .
  show ?case
  proof (cases "isword T c")
    case True
    with 2 show ?thesis by (auto dest: isspace_not_word)
  next
    case False
    with 2 dw show ?thesis by simp
  qed
qed

lemma squeeze_squeeze_nonword:
  "squeeze (isspace T) [SP] (squeeze (\<lambda>c. \<not> isword T c) [SP] s)
   = squeeze (\<lambda>c. \<not> isword T c) [SP] s"
proof (induction "\<lambda>c. \<not> isword T c" "[SP]" s rule: squeeze.induct)
  case 1
  show ?case by simp
next
  case (2 c cs)
  show ?case
  proof (cases "isword T c")
    case True
    with 2 show ?thesis by (auto dest: isspace_not_word)
  next
    case False
    let ?x = "squeeze (\<lambda>c. \<not> isword T c) [SP] (dropWhile (\<lambda>c. \<not> isword T c) cs)"
    have "dropWhile (\<lambda>c. \<not> isword T c) cs = [] \<or> \<not> \<not> isword T (hd (dropWhile (\<lambda>c. \<not> isword T c) cs))"
      by (rule dropWhile_head)
    then have "?x = [] \<or> \<not> \<not> isword T (hd ?x)" by (rule squeeze_head_word)
    then have "dropWhile (isspace T) ?x = ?x"
      by (cases ?x) (auto dest: isspace_not_word)
    with 2 False show ?thesis by simp
  qed
qed

subsection \<open>runs\<close>

lemma runs_cong: "\<forall>c \<in> set s. P c = Q c \<Longrightarrow> runs P s = runs Q s"
proof (induction "length s" arbitrary: s rule: less_induct)
  case less
  show ?case
  proof (cases s)
    case Nil
    then show ?thesis by simp
  next
    case (Cons c cs)
    have dw: "dropWhile P cs = dropWhile Q cs"
      using less.prems Cons by (intro dropWhile_cong) auto
    have tw: "takeWhile P cs = takeWhile Q cs"
      using less.prems Cons by (intro takeWhile_cong) auto
    have l1: "length (dropWhile Q cs) < length s"
      using Cons by (simp add: less_Suc_eq_le length_dropWhile_le)
    have a1: "\<forall>c \<in> set (dropWhile Q cs). P c = Q c"
      using less.prems Cons by (auto dest: set_dropWhileD)
    have l2: "length cs < length s" using Cons by simp
    have a2: "\<forall>c \<in> set cs. P c = Q c" using less.prems Cons by simp
    from less.hyps [OF l1 a1] less.hyps [OF l2 a2] dw tw less.prems Cons show ?thesis by simp
  qed
qed

lemma runs_none: "\<forall>c \<in> set s. \<not> P c \<Longrightarrow> runs P s = []"
  by (induction s) auto

lemma runs_some: "\<exists>c \<in> set s. P c \<Longrightarrow> runs P s \<noteq> []"
  by (induction s) auto

lemma runs_mem:
  "w \<in> set (runs P s) \<Longrightarrow> w \<noteq> [] \<and> set w \<subseteq> set s \<and> (\<forall>c \<in> set w. P c)"
proof (induction P s rule: runs.induct)
  case (1 P)
  then show ?case by simp
next
  case (2 P c cs)
  show ?case
  proof (cases "P c")
    case True
    with 2 show ?thesis by (auto dest: set_takeWhileD set_dropWhileD)
  next
    case False
    with 2 show ?thesis by auto
  qed
qed

lemma runs_dropWhile: "\<forall>c. Q c \<longrightarrow> \<not> P c \<Longrightarrow> runs P (dropWhile Q s) = runs P s"
  by (induction s) auto

lemma takeWhile_append_stop:
  "\<forall>c \<in> set w. P c \<Longrightarrow> x = [] \<or> \<not> P (hd x) \<Longrightarrow> takeWhile P (w @ x) = w"
  by (induction w) (auto, cases x, auto)

lemma dropWhile_append_stop:
  "\<forall>c \<in> set w. P c \<Longrightarrow> x = [] \<or> \<not> P (hd x) \<Longrightarrow> dropWhile P (w @ x) = x"
  by (induction w) (auto, cases x, auto)

lemma runs_append_run:
  assumes "w \<noteq> []" and "\<forall>c \<in> set w. P c" and "x = [] \<or> \<not> P (hd x)"
  shows "runs P (w @ x) = w # runs P x"
proof -
  from assms(1) obtain c w' where w: "w = c # w'" by (cases w) auto
  with assms(2) have c: "P c" and w': "\<forall>c \<in> set w'. P c" by auto
  from takeWhile_append_stop [OF w' assms(3)] dropWhile_append_stop [OF w' assms(3)] c w
  show ?thesis by simp
qed

lemma toks_squeeze:
  assumes "\<forall>c. P c \<longrightarrow> \<not> isword T c"
  shows "toks T (squeeze P [SP] s) = toks T s"
proof (induction "length s" arbitrary: s rule: less_induct)
  case less
  show ?case
  proof (cases s)
    case Nil
    then show ?thesis by (simp add: toks_def)
  next
    case (Cons c cs)
    show ?thesis
    proof (cases "P c")
      case True
      have l: "length (dropWhile P cs) < length s"
        using Cons by (simp add: less_Suc_eq_le length_dropWhile_le)
      have "toks T (dropWhile P cs) = toks T cs"
        unfolding toks_def using assms by (intro runs_dropWhile) auto
      with less [OF l] True assms Cons show ?thesis by (simp add: toks_def)
    next
      case False
      note nP = False
      show ?thesis
      proof (cases "isword T c")
        case False
        have "length cs < length s" using Cons by simp
        from less [OF this] False nP Cons show ?thesis by (simp add: toks_def)
      next
        case True
        let ?w = "c # takeWhile (isword T) cs"
        let ?r = "dropWhile (isword T) cs"
        have wP: "\<forall>c \<in> set ?w. \<not> P c" using assms True by (auto dest: set_takeWhileD)
        have ww: "\<forall>c \<in> set ?w. isword T c" using True by (auto dest: set_takeWhileD)
        have "s = ?w @ ?r" using Cons by simp
        then have "squeeze P [SP] s = ?w @ squeeze P [SP] ?r"
          using squeeze_append_clean [OF wP] by metis
        moreover have "squeeze P [SP] ?r = [] \<or> \<not> isword T (hd (squeeze P [SP] ?r))"
          by (rule squeeze_head_nonword) (rule dropWhile_head)
        ultimately have "toks T (squeeze P [SP] s) = ?w # toks T (squeeze P [SP] ?r)"
          unfolding toks_def using runs_append_run [of ?w "isword T"] ww by simp
        moreover have "length ?r < length s"
          using Cons by (simp add: less_Suc_eq_le length_dropWhile_le)
        ultimately show ?thesis using less [of ?r] True Cons by (simp add: toks_def)
      qed
    qed
  qed
qed

lemma tokfilter_head:
  "s = [] \<or> \<not> isword T (hd s) \<Longrightarrow>
   tokfilter T keep eat s = [] \<or> \<not> isword T (hd (tokfilter T keep eat s))"
  by (cases s) auto

lemma toks_tokfilter: "toks T (tokfilter T keep eat s) = filter keep (toks T s)"
proof (induction "length s" arbitrary: s rule: less_induct)
  case less
  show ?case
  proof (cases s)
    case Nil
    then show ?thesis by (simp add: toks_def)
  next
    case (Cons c cs)
    show ?thesis
    proof (cases "isword T c")
      case False
      have "length cs < length s" using Cons by simp
      from less [OF this] False Cons show ?thesis by (simp add: toks_def)
    next
      case True
      let ?w = "c # takeWhile (isword T) cs"
      let ?r = "dropWhile (isword T) cs"
      have ww: "\<forall>c \<in> set ?w. isword T c" using True by (auto dest: set_takeWhileD)
      have l1: "length ?r < length s"
        using Cons by (simp add: less_Suc_eq_le length_dropWhile_le)
      have "length (dropWhile (isspace T) ?r) \<le> length cs"
        by (rule order_trans [OF length_dropWhile_le length_dropWhile_le])
      then have l2: "length (dropWhile (isspace T) ?r) < length s" using Cons by simp
      have ts: "toks T s = ?w # toks T ?r" using True Cons by (simp add: toks_def)
      show ?thesis
      proof (cases "keep ?w")
        case True
        have "tokfilter T keep eat ?r = [] \<or> \<not> isword T (hd (tokfilter T keep eat ?r))"
          by (rule tokfilter_head) (rule dropWhile_head)
        then have "toks T (?w @ tokfilter T keep eat ?r) = ?w # toks T (tokfilter T keep eat ?r)"
          unfolding toks_def using runs_append_run [of ?w "isword T"] ww by simp
        with less [OF l1] True \<open>isword T c\<close> Cons ts show ?thesis by simp
      next
        case False
        have "toks T (dropWhile (isspace T) ?r) = toks T ?r"
          unfolding toks_def by (intro runs_dropWhile) (auto dest: isspace_not_word)
        with less [OF l1] less [OF l2] False \<open>isword T c\<close> Cons ts show ?thesis
          by (cases eat) simp_all
      qed
    qed
  qed
qed

lemma set_tokfilter: "set (tokfilter T keep eat s) \<subseteq> set s"
proof (induction T keep eat s rule: tokfilter.induct)
  case (1 T keep eat)
  show ?case by simp
next
  case (2 T keep eat c cs)
  show ?case
  proof (cases "isword T c")
    case False
    with 2 show ?thesis by auto
  next
    case True
    note w = True
    show ?thesis
    proof (cases "keep (c # takeWhile (isword T) cs)")
      case True
      with 2 w show ?thesis by (auto dest: set_takeWhileD set_dropWhileD)
    next
      case False
      with 2 w show ?thesis by (cases eat) (auto dest!: set_dropWhileD)
    qed
  qed
qed

lemma filter_tokfilter:
  assumes "\<forall>w. \<not> keep w \<longrightarrow> (\<forall>c \<in> set w. \<not> Q c)"
  shows "filter Q (tokfilter T keep False s) = filter Q s"
proof (induction "length s" arbitrary: s rule: less_induct)
  case less
  show ?case
  proof (cases s)
    case Nil
    then show ?thesis by simp
  next
    case (Cons c cs)
    show ?thesis
    proof (cases "isword T c")
      case False
      have "length cs < length s" using Cons by simp
      from less [OF this] False Cons show ?thesis by simp
    next
      case True
      let ?w = "c # takeWhile (isword T) cs"
      let ?r = "dropWhile (isword T) cs"
      have l1: "length ?r < length s"
        using Cons by (simp add: less_Suc_eq_le length_dropWhile_le)
      have "filter Q s = filter Q (?w @ ?r)" using Cons by simp
      then have fs: "filter Q s = filter Q ?w @ filter Q ?r" by (simp only: filter_append)
      show ?thesis
      proof (cases "keep ?w")
        case True
        with less [OF l1] \<open>isword T c\<close> Cons fs show ?thesis by simp
      next
        case False
        with assms have "\<forall>c \<in> set ?w. \<not> Q c" by blast
        then have "filter Q ?w = []" by (simp only: filter_empty_conv)
        with less [OF l1] False \<open>isword T c\<close> Cons fs show ?thesis by simp
      qed
    qed
  qed
qed

subsection \<open>strip and join\<close>

lemma rstrip_Nil_iff: "rstrip P x = [] \<longleftrightarrow> (\<forall>c \<in> set x. P c)"
  by (induction x) (auto simp: Let_def)

lemma rstrip_append_keep: "\<forall>c \<in> set w. \<not> P c \<Longrightarrow> rstrip P (w @ r) = w @ rstrip P r"
  by (induction w) (auto simp: Let_def)

lemma hd_rstrip: "rstrip P x \<noteq> [] \<Longrightarrow> hd (rstrip P x) = hd x"
  by (cases x) (auto simp: Let_def split: if_splits)

lemma set_rstrip: "set (rstrip P x) \<subseteq> set x"
  by (induction x) (auto simp: Let_def)

lemma join_Cons: "join sep (x # xs) = (if xs = [] then x else x @ sep @ join sep xs)"
  by (cases xs) auto

lemma squeeze_head:
  "squeeze Q [SP] y = (if y \<noteq> [] \<and> Q (hd y) then [SP] else []) @ squeeze Q [SP] (dropWhile Q y)"
  by (cases y) auto

lemma collapse_rstrip:
  assumes "\<forall>c \<in> set s. isword T c \<or> c = SP"
  shows "squeeze (\<lambda>c. c = SP) [SP] (rstrip (isspace T) s)
       = (if toks T s = [] then []
          else (if isword T (hd s) then [] else [SP]) @ join [SP] (toks T s))"
  using assms
proof (induction "length s" arbitrary: s rule: less_induct)
  case less
  let ?Q = "\<lambda>c. c = SP"
  show ?case
  proof (cases s)
    case Nil
    then show ?thesis by (simp add: toks_def)
  next
    case (Cons c cs)
    show ?thesis
    proof (cases "isword T c")
      case True
      let ?w = "c # takeWhile (isword T) cs"
      let ?r = "dropWhile (isword T) cs"
      have ww: "\<forall>c \<in> set ?w. isword T c" using True by (auto dest: set_takeWhileD)
      then have wsp: "\<forall>c \<in> set ?w. \<not> isspace T c" by (auto dest: isspace_not_word)
      have wq: "\<forall>c \<in> set ?w. \<not> ?Q c" using ww by auto
      have l: "length ?r < length s"
        using Cons by (simp add: less_Suc_eq_le length_dropWhile_le)
      have ar: "\<forall>c \<in> set ?r. isword T c \<or> c = SP"
        using less.prems Cons by (auto dest: set_dropWhileD)
      have ts: "toks T s = ?w # toks T ?r" using True Cons by (simp add: toks_def)
      have "s = ?w @ ?r" using Cons by simp
      then have "rstrip (isspace T) s = ?w @ rstrip (isspace T) ?r"
        using rstrip_append_keep [OF wsp] by metis
      then have "squeeze ?Q [SP] (rstrip (isspace T) s)
          = ?w @ squeeze ?Q [SP] (rstrip (isspace T) ?r)"
        using squeeze_append_clean [OF wq] by metis
      also have "squeeze ?Q [SP] (rstrip (isspace T) ?r)
          = (if toks T ?r = [] then [] else [SP] @ join [SP] (toks T ?r))"
      proof (cases "toks T ?r = []")
        case True
        with less.hyps [OF l ar] show ?thesis by simp
      next
        case False
        have "?r \<noteq> []"
        proof
          assume "?r = []"
          then have "toks T ?r = []" by (simp only: toks_def runs.simps)
          with False show False by simp
        qed
        with dropWhile_head [of "isword T" cs] have "\<not> isword T (hd ?r)" by blast
        with less.hyps [OF l ar] False show ?thesis by simp
      qed
      finally show ?thesis using ts True Cons by (simp add: join_Cons)
    next
      case False
      with less.prems Cons have c: "c = SP" by simp
      have ts: "toks T s = toks T cs" using False Cons by (simp add: toks_def)
      have acs: "\<forall>c \<in> set cs. isword T c \<or> c = SP" using less.prems Cons by simp
      have l: "length cs < length s" using Cons by simp
      show ?thesis
      proof (cases "rstrip (isspace T) cs = []")
        case True
        then have "\<forall>c \<in> set cs. isspace T c" by (simp add: rstrip_Nil_iff)
        then have "\<forall>c \<in> set cs. \<not> isword T c" by (auto dest: isspace_not_word)
        then have "toks T cs = []" unfolding toks_def by (rule runs_none)
        with True ts c Cons show ?thesis by simp
      next
        case False
        let ?y = "rstrip (isspace T) cs"
        from False have "\<not> (\<forall>c \<in> set cs. isspace T c)" by (simp add: rstrip_Nil_iff)
        then obtain a where a: "a \<in> set cs" "\<not> isspace T a" by blast
        with acs have "isword T a" by auto
        with a have "\<exists>c \<in> set cs. isword T c" by blast
        then have tne: "toks T cs \<noteq> []" unfolding toks_def by (rule runs_some)
        have csne: "cs \<noteq> []" using a by auto
        have hy: "hd ?y = hd cs" using False by (rule hd_rstrip)
        have "hd cs \<in> set cs" using csne by simp
        with acs have hq: "?Q (hd cs) \<longleftrightarrow> \<not> isword T (hd cs)" by auto
        have ih: "squeeze ?Q [SP] ?y
            = (if isword T (hd cs) then [] else [SP]) @ join [SP] (toks T cs)"
          using less.hyps [OF l acs] tne by simp
        have "squeeze ?Q [SP] ?y
            = (if ?Q (hd cs) then [SP] else []) @ squeeze ?Q [SP] (dropWhile ?Q ?y)"
          using squeeze_head [of ?Q ?y] False hy by simp
        with ih hq have "squeeze ?Q [SP] (dropWhile ?Q ?y) = join [SP] (toks T cs)"
          by (auto split: if_splits)
        with False c ts tne Cons \<open>\<not> isword T c\<close> show ?thesis by (simp add: Let_def)
      qed
    qed
  qed
qed

lemma collapse_strip:
  assumes "\<forall>c \<in> set s. isword T c \<or> c = SP"
  shows "squeeze (\<lambda>c. c = SP) [SP] (strip T s) = join [SP] (toks T s)"
proof -
  let ?s = "dropWhile (isspace T) s"
  have a: "\<forall>c \<in> set ?s. isword T c \<or> c = SP" using assms by (auto dest: set_dropWhileD)
  have t: "toks T ?s = toks T s"
    unfolding toks_def by (intro runs_dropWhile) (auto dest: isspace_not_word)
  show ?thesis
  proof (cases "toks T s = []")
    case True
    with collapse_rstrip [OF a] t show ?thesis by (simp add: strip_def)
  next
    case False
    have "?s \<noteq> []"
    proof
      assume "?s = []"
      then have "toks T ?s = []" by (simp only: toks_def runs.simps)
      with False t show False by simp
    qed
    with dropWhile_head [of "isspace T" s] have ns: "\<not> isspace T (hd ?s)" by blast
    from \<open>?s \<noteq> []\<close> have "hd ?s \<in> set ?s" by simp
    with a ns have "isword T (hd ?s)" by auto
    with collapse_rstrip [OF a] t False show ?thesis by (simp add: strip_def)
  qed
qed

lemma collapse_strip_space:
  assumes "\<forall>c \<in> set s. isword T c \<or> c = SP"
  shows "squeeze (isspace T) [SP] (strip T s) = join [SP] (toks T s)"
proof -
  have "set (strip T s) \<subseteq> set s"
    unfolding strip_def using set_rstrip [of "isspace T" "dropWhile (isspace T) s"]
    by (auto dest: set_dropWhileD)
  with assms have "\<forall>c \<in> set (strip T s). isspace T c = (c = SP)"
    by (auto dest: isspace_not_word)
  then have "squeeze (isspace T) [SP] (strip T s) = squeeze (\<lambda>c. c = SP) [SP] (strip T s)"
    by (rule squeeze_cong)
  with collapse_strip [OF assms] show ?thesis by simp
qed

section \<open>The Cleaner in normal form\<close>

subsection \<open>The first six steps\<close>

lemma re_sub_spaces: "re_sub T (pat_spaces T) repl s = squeeze (isspace T) repl s"
  by (simp add: pat_spaces_def re_sub_Rep1)

lemma re_sub_digits: "re_sub T (pat_digits T) [] s = filter (\<lambda>c. \<not> isdecimal T c) s"
  by (simp add: pat_digits_def re_sub_Rep1 squeeze_filter)

lemma re_sub_special: "re_sub T pat_special [SP] s = rule6 s"
  by (simp add: pat_special_def re_sub_Rep1 rule6_def)

lemma re_sub_blank: "re_sub T pat_blank [SP] s = squeeze (\<lambda>c. c = SP) [SP] s"
  by (simp add: pat_blank_def re_sub_Rep1)

lemma steps_1_2: "re_sub T (pat_spaces T) [SP] (re_sub T (pat_nonword T) [SP] s) = rule1 T s"
  by (simp add: re_sub_spaces re_sub_nonword squeeze_map_nonword rule1_def)

lemma steps_3_4: "re_sub T (pat_digits T) [] (re_sub T (pat_number T) [] s) = rule4 T s"
proof -
  have "re_sub T (pat_digits T) [] (re_sub T (pat_number T) [] s)
      = filter (\<lambda>c. \<not> isdecimal T c) (re_sub T (pat_number T) [] s)"
    by (rule re_sub_digits)
  also have "\<dots> = filter (\<lambda>c. \<not> isdecimal T c) s"
    unfolding re_sub_def by (rule re_sub_from_number)
  finally show ?thesis by (simp add: rule4_def)
qed

lemma rules_1_2: "rule2 T (rule1 T s) = rule1 T s"
  by (simp add: rule1_def rule2_def squeeze_squeeze_nonword)

lemma rules_3_4: "rule4 T (rule3 T s) = rule4 T s"
  unfolding rule4_def rule3_def
  by (rule filter_tokfilter) (auto simp: list_all_iff)

lemma not_decimal_letter:
  "is_ascii_alnum c \<Longrightarrow> \<not> isdecimal T c \<Longrightarrow> is_ascii_lower c \<or> is_ascii_upper c"
  by (auto simp: is_ascii_alnum_def isdecimal_def is_ascii_digit_def split: if_splits)

lemma set_rule1: "set (rule1 T s) \<subseteq> {c \<in> set s. isword T c} \<union> {SP}"
  unfolding rule1_def using set_squeeze [of "\<lambda>c. \<not> isword T c" "[SP]" s] by auto

lemma e_not_decimal: "\<not> isdecimal T 101"
  by (simp add: isdecimal_def is_ascii_digit_def)

lemma SP_not_decimal: "\<not> isdecimal T SP"
  by (simp add: isdecimal_def is_ascii_digit_def SP_def)

lemma set_prepared:
  assumes "c \<in> set (prepared T s)"
  shows "c = SP \<or> ((is_ascii_lower c \<or> is_ascii_upper c) \<and> (c \<in> set s \<or> c = 101))"
proof -
  let ?x = "rule5 (rule4 T (rule1 T s))"
  from assms set_squeeze [of "\<lambda>c. \<not> is_ascii_alnum c" "[SP]" ?x]
  have "c = SP \<or> (c \<in> set ?x \<and> is_ascii_alnum c)"
    by (auto simp: prepared_def rule6_def)
  moreover have "\<not> isdecimal T c \<and> (c \<in> set s \<or> c = 101 \<or> c = SP)" if "c \<in> set ?x"
    using that set_rule1 [of T s] by (auto simp: rule5_def rule4_def e_not_decimal)
  ultimately show ?thesis by (auto dest: not_decimal_letter)
qed

lemma letter_word: "is_ascii_lower c \<or> is_ascii_upper c \<Longrightarrow> isword T c"
  by (rule ascii_alnum_word) (auto simp: is_ascii_alnum_def)

lemma letter_not_decimal: "is_ascii_lower c \<or> is_ascii_upper c \<Longrightarrow> \<not> isdecimal T c"
  by (auto simp: isdecimal_def is_ascii_digit_def is_ascii_lower_def is_ascii_upper_def)

lemma prepared_alphabet: "\<forall>c \<in> set (prepared T s). isword T c \<or> c = SP"
proof
  fix c assume "c \<in> set (prepared T s)"
  from set_prepared [OF this] letter_word [of c T] show "isword T c \<or> c = SP" by blast
qed

lemma prepared_no_apostrophe: "39 \<notin> set (prepared T s)"
  using set_prepared [of 39 T s]
  by (auto simp: SP_def is_ascii_lower_def is_ascii_upper_def)

lemma clean_prepared:
  "re_sub T pat_special [SP]
     (replace_char 233 101
       (re_sub T (pat_digits T) []
         (re_sub T (pat_number T) []
           (re_sub T (pat_spaces T) [SP] (re_sub T (pat_nonword T) [SP] s)))))
   = prepared T s"
  by (simp add: steps_1_2 steps_3_4 re_sub_special replace_char_def rule5_def prepared_def)

lemma spec_prepared:
  "rule6 (rule5 (rule4 T (rule3 T (rule2 T (rule1 T s))))) = prepared T s"
  by (simp add: rules_1_2 rules_3_4 prepared_def)

subsection \<open>Normal form\<close>


lemma clean_normal_form:
  assumes "plain_words sw"
  shows "clean T sw s = join [SP] (kept T sw s)"
proof -
  let ?p = "prepared T s"
  let ?s7 = "rule7 T ?p"
  let ?s8 = "tokfilter T (\<lambda>w. w \<notin> set sw) True ?s7"
  have s7: "set ?s7 \<subseteq> set ?p" unfolding rule7_def by (rule set_tokfilter)
  have s8: "set ?s8 \<subseteq> set ?p" using set_tokfilter [of T _ True ?s7] s7 by blast
  have "39 \<notin> set ?s7" using s7 prepared_no_apostrophe [of T s] by blast
  then have st: "re_sub T (pat_stop T sw) [] ?s7 = ?s8"
    using re_sub_from_stop [OF assms] by (simp add: re_sub_def)
  have al: "\<forall>c \<in> set ?s8. isword T c \<or> c = SP"
    using s8 prepared_alphabet [of T s] by blast
  have "clean T sw s = re_sub T pat_blank [SP] (strip T ?s8)"
    unfolding clean_def Let_def clean_prepared re_sub_short st ..
  also have "\<dots> = join [SP] (toks T ?s8)"
    using collapse_strip [OF al] by (simp add: re_sub_blank)
  also have "toks T ?s8 = kept T sw s"
    by (simp add: toks_tokfilter rule7_def kept_def)
  finally show ?thesis .
qed

lemma spec_clean_normal_form: "spec_clean T sw s = join [SP] (kept T sw s)"
proof -
  let ?p = "prepared T s"
  let ?s8 = "rule8 T sw (rule7 T ?p)"
  have "set ?s8 \<subseteq> set ?p"
    unfolding rule8_def rule7_def
    using set_tokfilter [of T "\<lambda>w. w \<notin> set sw" False "tokfilter T (\<lambda>w. 2 < length w) False ?p"]
      set_tokfilter [of T "\<lambda>w. 2 < length w" False ?p]
    by blast
  then have al: "\<forall>c \<in> set ?s8. isword T c \<or> c = SP"
    using prepared_alphabet [of T s] by blast
  have "spec_clean T sw s = rule9 T ?s8" by (simp add: spec_clean_def spec_prepared)
  also have "\<dots> = join [SP] (toks T ?s8)"
    unfolding rule9_def using al by (rule collapse_strip_space)
  also have "toks T ?s8 = kept T sw s"
    by (simp add: toks_tokfilter rule7_def rule8_def kept_def)
  finally show ?thesis .
qed

lemma kept_mem:
  assumes "w \<in> set (kept T sw s)"
  shows "2 < length w" and "w \<notin> set sw"
    and "\<forall>c \<in> set w. (is_ascii_lower c \<or> is_ascii_upper c) \<and> (c \<in> set s \<or> c = 101)"
proof -
  from assms show "2 < length w" "w \<notin> set sw" by (auto simp: kept_def)
  from assms have "w \<in> set (runs (isword T) (prepared T s))" by (auto simp: kept_def toks_def)
  from runs_mem [OF this] have sub: "set w \<subseteq> set (prepared T s)" by simp
  show "\<forall>c \<in> set w. (is_ascii_lower c \<or> is_ascii_upper c) \<and> (c \<in> set s \<or> c = 101)"
  proof
    fix c assume "c \<in> set w"
    with sub have c: "c \<in> set (prepared T s)" by blast
    from assms have "w \<in> set (runs (isword T) (prepared T s))" by (auto simp: kept_def toks_def)
    from runs_mem [OF this] \<open>c \<in> set w\<close> have "isword T c" by simp
    then have "c \<noteq> SP" by auto
    with set_prepared [OF c] show "(is_ascii_lower c \<or> is_ascii_upper c) \<and> (c \<in> set s \<or> c = 101)"
      by simp
  qed
qed

subsection \<open>Joined words\<close>

lemma join_hd: "xs \<noteq> [] \<Longrightarrow> hd xs \<noteq> [] \<Longrightarrow> join sep xs \<noteq> [] \<and> hd (join sep xs) = hd (hd xs)"
  by (cases xs) (auto simp: join_Cons)

lemma set_join: "set (join sep xs) \<subseteq> \<Union> (set ` set xs) \<union> set sep"
  by (induction sep xs rule: join.induct) auto

lemma squeeze_join:
  assumes "P SP" and "\<forall>w \<in> set ws. w \<noteq> [] \<and> (\<forall>c \<in> set w. \<not> P c)"
  shows "squeeze P [SP] (join [SP] ws) = join [SP] ws"
  using assms(2)
proof (induction ws)
  case Nil
  show ?case by simp
next
  case (Cons x xs)
  then have x: "\<forall>c \<in> set x. \<not> P c" by simp
  show ?case
  proof (cases "xs = []")
    case True
    with x show ?thesis by (simp add: squeeze_clean)
  next
    case False
    with Cons.prems have "hd xs \<noteq> []" by (cases xs) auto
    from join_hd [OF False this] have jn: "join [SP] xs \<noteq> []"
      and jh: "hd (join [SP] xs) = hd (hd xs)" by auto
    from False Cons.prems \<open>hd xs \<noteq> []\<close> have "\<not> P (hd (hd xs))" by (cases xs) auto
    with jn jh have "dropWhile P (join [SP] xs) = join [SP] xs" by (cases "join [SP] xs") auto
    with Cons False x assms(1) show ?thesis
      by (simp add: join_Cons squeeze_append_clean)
  qed
qed

lemma runs_join:
  assumes "\<not> P SP" and "\<forall>w \<in> set ws. w \<noteq> [] \<and> (\<forall>c \<in> set w. P c)"
  shows "runs P (join [SP] ws) = ws"
  using assms(2)
proof (induction ws)
  case Nil
  show ?case by simp
next
  case (Cons x xs)
  show ?case
  proof (cases "xs = []")
    case True
    with Cons.prems runs_append_run [of x P "[]"] show ?thesis by simp
  next
    case False
    have "runs P (x @ SP # join [SP] xs) = x # runs P (SP # join [SP] xs)"
      using Cons.prems assms(1) by (intro runs_append_run) auto
    with Cons False assms(1) show ?thesis by (simp add: join_Cons)
  qed
qed

lemma runs_cover: "c \<in> set s \<Longrightarrow> P c \<Longrightarrow> \<exists>w \<in> set (runs P s). c \<in> set w"
proof (induction "length s" arbitrary: s rule: less_induct)
  case less
  show ?case
  proof (cases s)
    case Nil
    with less.prems show ?thesis by simp
  next
    case (Cons a as)
    show ?thesis
    proof (cases "P a")
      case False
      with less.prems Cons have "c \<in> set as" by auto
      moreover have "length as < length s" using Cons by simp
      ultimately show ?thesis using less.hyps [of as] less.prems(2) False Cons by simp
    next
      case True
      have "as = takeWhile P as @ dropWhile P as" by simp
      then have "set as = set (takeWhile P as) \<union> set (dropWhile P as)" by (metis set_append)
      with less.prems Cons
      consider "c = a" | "c \<in> set (takeWhile P as)" | "c \<in> set (dropWhile P as)" by auto
      then show ?thesis
      proof cases
        case 1
        with True Cons show ?thesis by simp
      next
        case 2
        with True Cons show ?thesis by simp
      next
        case 3
        have "length (dropWhile P as) < length s"
          using Cons by (simp add: less_Suc_eq_le length_dropWhile_le)
        from less.hyps [OF this 3 less.prems(2)] True Cons show ?thesis by simp
      qed
    qed
  qed
qed

lemma runs_append_gap:
  assumes "x = [] \<or> \<not> P (hd x)"
  shows "runs P (v @ x) = runs P v @ runs P x"
proof (induction "length v" arbitrary: v rule: less_induct)
  case less
  show ?case
  proof (cases v)
    case Nil
    then show ?thesis by simp
  next
    case (Cons a v')
    show ?thesis
    proof (cases "P a")
      case False
      have "length v' < length v" using Cons by simp
      from less [OF this] False Cons show ?thesis by simp
    next
      case True
      show ?thesis
      proof (cases "\<forall>c \<in> set v'. P c")
        case all: True
        from takeWhile_append_stop [OF all assms] dropWhile_append_stop [OF all assms]
        have "runs P (v @ x) = (a # v') # runs P x" using True Cons by simp
        moreover have tw: "takeWhile P v' = v'" and dw: "dropWhile P v' = []" using all by simp_all
        have "runs P v = [a # v']" unfolding Cons using True by (simp only: runs.simps tw dw if_True)
        ultimately show ?thesis by simp
      next
        case False
        then obtain b where b: "b \<in> set v'" "\<not> P b" by blast
        from b have tw: "takeWhile P (v' @ x) = takeWhile P v'" by (rule takeWhile_append1)
        from b have dw: "dropWhile P (v' @ x) = dropWhile P v' @ x" by (rule dropWhile_append1)
        have "length (dropWhile P v') < length v"
          using Cons by (simp add: less_Suc_eq_le length_dropWhile_le)
        from less [OF this] tw dw True Cons show ?thesis by simp
      qed
    qed
  qed
qed

lemma runs_refine:
  assumes "\<forall>c. P c \<longrightarrow> Q c"
  shows "runs P s = concat (map (runs P) (runs Q s))"
proof (induction "length s" arbitrary: s rule: less_induct)
  case less
  show ?case
  proof (cases s)
    case Nil
    then show ?thesis by simp
  next
    case (Cons c cs)
    show ?thesis
    proof (cases "Q c")
      case False
      with assms have "\<not> P c" by blast
      moreover have "length cs < length s" using Cons by simp
      ultimately show ?thesis using less [of cs] False Cons by simp
    next
      case True
      let ?v = "c # takeWhile Q cs"
      let ?r = "dropWhile Q cs"
      have "?r = [] \<or> \<not> Q (hd ?r)" by (rule dropWhile_head)
      with assms have "?r = [] \<or> \<not> P (hd ?r)" by blast
      then have "runs P (?v @ ?r) = runs P ?v @ runs P ?r" by (rule runs_append_gap)
      then have "runs P s = runs P ?v @ runs P ?r" using Cons by simp
      moreover have "length ?r < length s"
        using Cons by (simp add: less_Suc_eq_le length_dropWhile_le)
      ultimately show ?thesis using less [of ?r] True Cons by simp
    qed
  qed
qed

lemma apostrophe_not_word: "\<not> isword T 39"
  by (simp add: isword_def isalnum_def is_ascii_alnum_def
      is_ascii_lower_def is_ascii_upper_def is_ascii_digit_def)

lemma apostrophe_not_lower: "\<not> is_ascii_lower 39"
  by (simp add: is_ascii_lower_def)

lemma lower_facts:
  assumes "is_ascii_lower c"
  shows "is_ascii_alnum c" and "\<not> isdecimal T c" and "c \<noteq> 233" and "c \<noteq> SP"
  using assms
  by (auto simp: is_ascii_alnum_def is_ascii_lower_def isdecimal_def is_ascii_digit_def SP_def)

lemma SP_not_alnum: "\<not> is_ascii_alnum SP"
  by (simp add: is_ascii_alnum_def is_ascii_lower_def is_ascii_upper_def is_ascii_digit_def SP_def)

lemma stopword_text_tokens:
  assumes pl: "plain_words sw" and al: "all_stopwords T sw s"
  shows "toks T (prepared T s) = concat (map (runs is_ascii_lower) (py_split T s))"
proof -
  have sw: "\<forall>v \<in> set (py_split T s). v \<in> set sw" using al by (simp add: all_stopwords_def list_all_iff)
  have plain: "\<forall>v \<in> set (py_split T s). \<forall>c \<in> set v. is_ascii_lower c \<or> c = 39"
    using sw pl by (auto simp: plain_words_def)
  have chars: "isspace T c \<or> is_ascii_lower c \<or> c = 39" if "c \<in> set s" for c
  proof (cases "isspace T c")
    case True
    then show ?thesis by simp
  next
    case False
    from runs_cover [of c s "\<lambda>c. \<not> isspace T c", OF that False]
    obtain w where "w \<in> set (py_split T s)" "c \<in> set w" by (auto simp: py_split_def)
    with plain show ?thesis by blast
  qed
  have r1: "c = SP \<or> is_ascii_lower c" if "c \<in> set (rule1 T s)" for c
  proof -
    from that set_rule1 [of T s] have "c = SP \<or> (c \<in> set s \<and> isword T c)" by auto
    then show ?thesis
    proof
      assume "c = SP" then show ?thesis by simp
    next
      assume c: "c \<in> set s \<and> isword T c"
      with chars [of c] have "isspace T c \<or> is_ascii_lower c \<or> c = 39" by simp
      with c show ?thesis by (auto dest: isspace_not_word simp: apostrophe_not_word)
    qed
  qed
  have "\<not> isdecimal T c" if "c \<in> set (rule1 T s)" for c
    using r1 [OF that] by (auto simp: SP_not_decimal lower_facts)
  then have "rule4 T (rule1 T s) = rule1 T s"
    unfolding rule4_def by (simp add: filter_id_conv)
  moreover have "c \<noteq> 233" if "c \<in> set (rule1 T s)" for c
    using r1 [OF that] by (auto simp: SP_def is_ascii_lower_def)
  then have "rule5 (rule1 T s) = rule1 T s"
    unfolding rule5_def by (intro map_idI) auto
  moreover have "rule6 (rule1 T s) = squeeze (\<lambda>c. c = SP) [SP] (rule1 T s)"
    unfolding rule6_def
  proof (rule squeeze_cong, rule ballI)
    fix c assume "c \<in> set (rule1 T s)"
    from r1 [OF this] show "(\<not> is_ascii_alnum c) = (c = SP)"
      by (auto simp: SP_not_alnum lower_facts)
  qed
  ultimately have "prepared T s = squeeze (\<lambda>c. c = SP) [SP] (rule1 T s)"
    by (simp add: prepared_def)
  then have "toks T (prepared T s) = toks T (rule1 T s)"
    by (simp add: toks_squeeze)
  also have "\<dots> = toks T s" unfolding rule1_def by (rule toks_squeeze) simp
  also have "\<dots> = concat (map (toks T) (py_split T s))"
    unfolding toks_def py_split_def by (rule runs_refine) (auto dest: isspace_not_word)
  also have "map (toks T) (py_split T s) = map (runs is_ascii_lower) (py_split T s)"
  proof (rule map_cong [OF refl])
    fix v assume v: "v \<in> set (py_split T s)"
    have "\<forall>c \<in> set v. isword T c = is_ascii_lower c"
    proof
      fix c assume "c \<in> set v"
      with plain v have "is_ascii_lower c \<or> c = 39" by blast
      then show "isword T c = is_ascii_lower c"
        by (auto simp: apostrophe_not_word apostrophe_not_lower dest: lower_word)
    qed
    then show "toks T v = runs is_ascii_lower v" unfolding toks_def by (rule runs_cong)
  qed
  finally show ?thesis .
qed

lemma english_plain: "plain_words english_stopwords"
  by (simp add: plain_words_def english_stopwords_def py_def apo_def is_ascii_lower_def)

lemma kept_words:
  assumes "w \<in> set (kept T sw s)"
  shows "w \<noteq> []" and "\<forall>c \<in> set w. isword T c" and "\<forall>c \<in> set w. \<not> isspace T c"
    and "\<forall>c \<in> set w. is_ascii_alnum c" and "\<forall>c \<in> set w. \<not> isdecimal T c"
    and "\<forall>c \<in> set w. c \<noteq> 233"
proof -
  from kept_mem(1) [OF assms] show "w \<noteq> []" by auto
  have l: "\<forall>c \<in> set w. is_ascii_lower c \<or> is_ascii_upper c" using kept_mem(3) [OF assms] by blast
  then show w: "\<forall>c \<in> set w. isword T c" by (auto intro: letter_word)
  then show "\<forall>c \<in> set w. \<not> isspace T c" by (auto dest: isspace_not_word)
  from l show "\<forall>c \<in> set w. is_ascii_alnum c" by (auto simp: is_ascii_alnum_def)
  from l show "\<forall>c \<in> set w. \<not> isdecimal T c" using letter_not_decimal by blast
  from l show "\<forall>c \<in> set w. c \<noteq> 233" by (auto simp: is_ascii_lower_def is_ascii_upper_def)
qed

lemma clean_fixed:
  assumes "plain_words sw"
    and ws: "\<forall>w \<in> set ws. 2 < length w \<and> w \<notin> set sw
              \<and> (\<forall>c \<in> set w. is_ascii_lower c \<or> is_ascii_upper c)"
  shows "clean T sw (join [SP] ws) = join [SP] ws"
proof -
  let ?t = "join [SP] ws"
  have ne: "\<forall>w \<in> set ws. w \<noteq> []" using ws by auto
  have wd: "\<forall>w \<in> set ws. \<forall>c \<in> set w. isword T c" using ws letter_word by blast
  have an: "\<forall>w \<in> set ws. \<forall>c \<in> set w. is_ascii_alnum c"
    using ws by (auto simp: is_ascii_alnum_def)
  have ch: "c = SP \<or> (\<exists>w \<in> set ws. c \<in> set w)" if "c \<in> set ?t" for c
    using that set_join [of "[SP]" ws] by auto
  have r1: "rule1 T ?t = ?t"
    unfolding rule1_def using ne wd by (intro squeeze_join) auto
  have "\<not> isdecimal T c" if "c \<in> set ?t" for c
  proof -
    from ch [OF that] show ?thesis
    proof
      assume "c = SP" then show ?thesis by (simp add: SP_not_decimal)
    next
      assume "\<exists>w \<in> set ws. c \<in> set w"
      with ws have "is_ascii_lower c \<or> is_ascii_upper c" by blast
      then show ?thesis by (rule letter_not_decimal)
    qed
  qed
  then have r4: "rule4 T ?t = ?t" unfolding rule4_def by (simp add: filter_id_conv)
  have "c \<noteq> 233" if "c \<in> set ?t" for c
  proof -
    from ch [OF that] show ?thesis
    proof
      assume "c = SP" then show ?thesis by (simp add: SP_def)
    next
      assume "\<exists>w \<in> set ws. c \<in> set w"
      with ws have "is_ascii_lower c \<or> is_ascii_upper c" by blast
      then show ?thesis by (auto simp: is_ascii_lower_def is_ascii_upper_def)
    qed
  qed
  then have r5: "rule5 ?t = ?t" unfolding rule5_def by (intro map_idI) auto
  have r6: "rule6 ?t = ?t"
    unfolding rule6_def using ne an by (intro squeeze_join) (auto simp: SP_not_alnum)
  have p: "prepared T ?t = ?t" by (simp add: prepared_def r1 r4 r5 r6)
  have "toks T ?t = ws"
    unfolding toks_def using ne wd by (intro runs_join) auto
  with p have "kept T sw ?t = filter (\<lambda>w. w \<notin> set sw) (filter (\<lambda>w. 2 < length w) ws)"
    by (simp add: kept_def)
  also have "\<dots> = ws" using ws by (simp add: filter_id_conv)
  finally have "kept T sw ?t = ws" .
  with clean_normal_form [OF assms(1), of T ?t] show ?thesis by simp
qed

section \<open>The pipeline\<close>

subsection \<open>The stages on the empty text\<close>

lemma re_sub_Nil: "rmatch T r (False, []) = [] \<Longrightarrow> re_sub T r repl [] = []"
  unfolding re_sub_def by (rule re_sub_from_Nil)

lemma clean_Nil: "clean T sw [] = []"
proof -
  have 1: "re_sub T (pat_nonword T) [SP] [] = []" by (rule re_sub_Nil) (simp add: pat_nonword_def)
  have 2: "re_sub T (pat_spaces T) [SP] [] = []" by (rule re_sub_Nil) (simp add: pat_spaces_def)
  have 3: "re_sub T (pat_number T) [] [] = []"
    by (rule re_sub_Nil) (simp add: pat_number_def at_boundary_def)
  have 4: "re_sub T (pat_digits T) [] [] = []" by (rule re_sub_Nil) (simp add: pat_digits_def)
  have 6: "re_sub T pat_special [SP] [] = []" by (rule re_sub_Nil) (simp add: pat_special_def)
  have 7: "re_sub T (pat_short T) [] [] = []"
    by (rule re_sub_Nil) (simp add: pat_short_def at_boundary_def)
  have 8: "re_sub T (pat_stop T sw) [] [] = []"
    by (rule re_sub_Nil) (simp add: pat_stop_def at_boundary_def)
  have 9: "re_sub T pat_blank [SP] [] = []" by (rule re_sub_Nil) (simp add: pat_blank_def)
  show ?thesis
    by (simp add: clean_def Let_def 1 2 3 4 6 7 8 9 replace_char_def strip_def)
qed

lemma str_lower_Nil: "str_lower L [] = []"
  by (simp add: str_lower_def)

lemma spacy_doc_Nil:
  assumes "spacy_doc [] d"
  shows "tokens d = []" and "noun_chunks d = []"
proof -
  from assms have c: "concat (map text_with_ws (tokens d)) = []"
    and t: "\<forall>t \<in> set (tokens d). tok_text t \<noteq> []"
    and n: "\<forall>ch \<in> set (noun_chunks d). fst ch < snd ch \<and> snd ch \<le> length (tokens d)"
    by (auto simp: spacy_doc_def list_all_iff)
  show ts: "tokens d = []"
  proof (rule ccontr)
    assume "tokens d \<noteq> []"
    then obtain a as where a: "tokens d = a # as" by (cases "tokens d") auto
    with c have "text_with_ws a = []" by simp
    then have "tok_text a = []" by (simp add: text_with_ws_def)
    with t a show False by simp
  qed
  show "noun_chunks d = []"
  proof (rule ccontr)
    assume "noun_chunks d \<noteq> []"
    then obtain ch where "ch \<in> set (noun_chunks d)" by (cases "noun_chunks d") auto
    with n ts show False by auto
  qed
qed

lemma lemmaspacy_ok:
  "length s \<le> 60000000 \<Longrightarrow> lemmaspacy M s = Inr (join [SP] (map tok_lemma (tokens (M s))))"
  by (simp add: lemmaspacy_def nlp_call_def en_core_web_sm_load_def)

lemma lemmaspacy_overflow: "60000000 < length s \<Longrightarrow> lemmaspacy M s = Inl ValueError"
  by (simp add: lemmaspacy_def nlp_call_def en_core_web_sm_load_def)

lemma extract_nouns_ok:
  "length s \<le> 6000000 \<Longrightarrow> extract_nouns W s = Inr (noun_text (model W s))"
  by (simp add: extract_nouns_def nlp_call_def global_nlp_def en_core_web_sm_load_def)

lemma process_text_Nil:
  assumes "spacy_doc [] (model W [])"
  shows "lemmaspacy (model W) [] = Inr []" and "extract_nouns W [] = Inr []"
    and "process_text W [] = Inr []"
proof -
  show 1: "lemmaspacy (model W) [] = Inr []"
    using spacy_doc_Nil(1) [OF assms] by (simp add: lemmaspacy_ok)
  show 2: "extract_nouns W [] = Inr []"
    using spacy_doc_Nil(2) [OF assms] by (simp add: extract_nouns_ok noun_text_def)
  show "process_text W [] = Inr []"
    by (simp add: process_text_def analyse_def str_lower_Nil clean_Nil 1 2)
qed

subsection \<open>The loader loop\<close>


lemma loader_body_Inr:
  "loader_body W st file = Inr st' \<longleftrightarrow>
   (\<exists>d. processed W file d
      \<and> st' = st\<lparr>file_names := file_names st @ [file],
                list_documents := list_documents st @ [d]\<rparr>)"
  by (cases "codecs_open W file")
     (auto simp: loader_body_def processed_def corpus_read_def Let_def
           split: sum.splits entry.splits)

lemma loader_body_total:
  "processed W file d \<Longrightarrow>
   loader_body W st file = Inr (st\<lparr>file_names := file_names st @ [file],
                                   list_documents := list_documents st @ [d]\<rparr>)"
  using loader_body_Inr [of W st "file"] by (auto simp: processed_def)

lemma loader_loop_Inr:
  assumes "loader_loop W st files = Inr st'"
  shows "file_names st' = file_names st @ files
       \<and> (\<exists>ds. list_documents st' = list_documents st @ ds \<and> list_all2 (processed W) files ds)"
  using assms
proof (induction files arbitrary: st)
  case Nil
  then show ?case by simp
next
  case (Cons f fs)
  from Cons.prems obtain st1 where b: "loader_body W st f = Inr st1"
    and l: "loader_loop W st1 fs = Inr st'"
    by (auto split: sum.splits)
  from b obtain d where d: "processed W f d"
    and st1: "st1 = st\<lparr>file_names := file_names st @ [f], list_documents := list_documents st @ [d]\<rparr>"
    by (auto simp: loader_body_Inr)
  from Cons.IH [OF l] obtain ds where fn: "file_names st' = file_names st1 @ fs"
    and ld: "list_documents st' = list_documents st1 @ ds" and a: "list_all2 (processed W) fs ds"
    by auto
  from ld st1 have "list_documents st' = list_documents st @ (d # ds)" by simp
  moreover from a d have "list_all2 (processed W) (f # fs) (d # ds)" by simp
  ultimately show ?case using fn st1 by auto
qed

lemma loader_loop_total:
  assumes "\<forall>f \<in> set files. \<exists>d. processed W f d"
  shows "\<exists>st'. loader_loop W st files = Inr st'"
  using assms
proof (induction files arbitrary: st)
  case Nil
  show ?case by simp
next
  case (Cons f fs)
  from Cons.prems obtain d where "processed W f d" by auto
  from loader_body_total [OF this, of st] Cons.IH Cons.prems show ?case by simp
qed

lemma loader_loop_append:
  "loader_loop W st (xs @ ys) =
   (case loader_loop W st xs of Inl e \<Rightarrow> Inl e | Inr st' \<Rightarrow> loader_loop W st' ys)"
  by (induction xs arbitrary: st) (auto split: sum.splits)

subsection \<open>The writer loop\<close>


lemma writer_loop_fold:
  assumes "\<forall>i \<in> set is. i < length (file_names st) \<and> i < length (list_documents st)"
  shows "writer_loop st out is = Inr (fold (put st) is out)"
  using assms by (induction "is" arbitrary: out) (auto simp: put_def)

lemma fold_put_other:
  "f \<notin> (\<lambda>i. file_names st ! i) ` set is \<Longrightarrow> fold (put st) is out f = out f"
  by (induction "is" arbitrary: out) (auto simp: put_def)

lemma fold_put_hit:
  assumes "distinct (map (\<lambda>i. file_names st ! i) is)" and "i \<in> set is"
  shows "fold (put st) is out (file_names st ! i) = Some (list_documents st ! i)"
  using assms
proof (induction "is" arbitrary: out)
  case Nil
  then show ?case by simp
next
  case (Cons j js)
  show ?case
  proof (cases "i = j")
    case True
    with Cons.prems have notin: "file_names st ! i \<notin> (\<lambda>i. file_names st ! i) ` set js" by auto
    have "fold (put st) (j # js) out (file_names st ! i)
        = fold (put st) js (put st j out) (file_names st ! i)" by simp
    also have "\<dots> = put st j out (file_names st ! i)" using notin by (rule fold_put_other)
    also have "\<dots> = Some (list_documents st ! i)" using True by (simp add: put_def)
    finally show ?thesis .
  next
    case False
    with Cons show ?thesis by simp
  qed
qed

lemma dom_fold_put: "dom (fold (put st) is out) = dom out \<union> (\<lambda>i. file_names st ! i) ` set is"
  by (induction "is" arbitrary: out) (auto simp: put_def)


lemma loader_Some: "text_files W = Some dir \<Longrightarrow> loader W = loader_loop W initial (map fst dir)"
  by (simp add: loader_def)

lemma loader_state:
  assumes "loader_loop W initial files = Inr st"
  shows "file_names st = files" and "list_all2 (processed W) files (list_documents st)"
    and "length (file_names st) = length (list_documents st)"
proof -
  from loader_loop_Inr [OF assms] show 1: "file_names st = files"
    and 2: "list_all2 (processed W) files (list_documents st)"
    by (auto simp: initial_def)
  from 1 2 show "length (file_names st) = length (list_documents st)"
    by (simp add: list_all2_lengthD)
qed

subsection \<open>The writer after an exception in the loader\<close>

lemma loader_body_Inl:
  assumes "loader_body W st file = Inl (e, st')"
  shows "list_documents st' = list_documents st
       \<and> (file_names st' = file_names st \<or> file_names st' = file_names st @ [file])"
  using assms
  by (auto simp: loader_body_def Let_def split: sum.splits)

lemma loader_loop_Inl:
  assumes "loader_loop W st files = Inl (e, st')"
  shows "\<exists>ds. list_documents st' = list_documents st @ ds
      \<and> length ds < length files
      \<and> list_all2 (processed W) (take (length ds) files) ds
      \<and> (file_names st' = file_names st @ take (length ds) files
          \<or> file_names st' = file_names st @ take (Suc (length ds)) files)"
  using assms
proof (induction files arbitrary: st)
  case Nil
  then show ?case by simp
next
  case (Cons f fs)
  show ?case
  proof (cases "loader_body W st f")
    case (Inl x)
    with Cons.prems have "loader_body W st f = Inl (e, st')" by simp
    from loader_body_Inl [OF this] show ?thesis by (intro exI [of _ "[]"]) auto
  next
    case (Inr st1)
    with Cons.prems have l: "loader_loop W st1 fs = Inl (e, st')" by simp
    from Inr obtain d where d: "processed W f d"
      and st1: "st1 = st\<lparr>file_names := file_names st @ [f],
                         list_documents := list_documents st @ [d]\<rparr>"
      by (auto simp: loader_body_Inr)
    from Cons.IH [OF l] obtain ds where ds: "list_documents st' = list_documents st1 @ ds"
      "length ds < length fs" "list_all2 (processed W) (take (length ds) fs) ds"
      "file_names st' = file_names st1 @ take (length ds) fs
       \<or> file_names st' = file_names st1 @ take (Suc (length ds)) fs"
      by blast
    show ?thesis
      using ds d st1 by (intro exI [of _ "d # ds"]) auto
  qed
qed

lemma map_nth_take: "n \<le> length xs \<Longrightarrow> map (\<lambda>i. xs ! i) [0 ..< n] = take n xs"
proof -
  assume n: "n \<le> length xs"
  have "take n xs = take n (map (\<lambda>i. xs ! i) [0 ..< length xs])" by (simp only: map_nth)
  also have "\<dots> = map (\<lambda>i. xs ! i) (take n [0 ..< length xs])" by (rule take_map)
  also have "take n [0 ..< length xs] = [0 ..< n]" using n by simp
  finally show ?thesis by simp
qed

lemma writer_prefix:
  assumes "length (list_documents st) \<le> length (file_names st)"
  shows "\<exists>out'. writer st out = Inr out'
      \<and> dom out' = dom out \<union> set (take (length (list_documents st)) (file_names st))
      \<and> (distinct (take (length (list_documents st)) (file_names st)) \<longrightarrow>
           (\<forall>i < length (list_documents st).
              out' (file_names st ! i) = Some (list_documents st ! i)))"
proof -
  let ?n = "length (list_documents st)"
  let ?out' = "fold (put st) [0 ..< ?n] out"
  have mp: "map (\<lambda>i. file_names st ! i) [0 ..< ?n] = take ?n (file_names st)"
    using assms by (rule map_nth_take)
  have "set (map (\<lambda>i. file_names st ! i) [0 ..< ?n]) = set (take ?n (file_names st))"
    by (simp only: mp)
  then have img: "(\<lambda>i. file_names st ! i) ` set [0 ..< ?n] = set (take ?n (file_names st))"
    by (simp only: set_map)
  have w: "writer st out = Inr ?out'"
    unfolding writer_def using assms by (intro writer_loop_fold) auto
  have d: "dom ?out' = dom out \<union> set (take ?n (file_names st))"
    using dom_fold_put img by simp
  have h: "?out' (file_names st ! i) = Some (list_documents st ! i)"
    if "distinct (take ?n (file_names st))" "i < ?n" for i
  proof -
    from that(1) have "distinct (map (\<lambda>i. file_names st ! i) [0 ..< ?n])"
      by (simp only: mp)
    moreover have "i \<in> set [0 ..< ?n]" using that(2) by simp
    ultimately show ?thesis by (rule fold_put_hit)
  qed
  from w d h show ?thesis by blast
qed

lemma writer_after_exception:
  assumes "loader_loop W initial files = Inl (e, st)"
  shows "\<exists>out'. writer st out = Inr out'
      \<and> length (list_documents st) < length files
      \<and> (\<forall>i < length (list_documents st). processed W (files ! i) (list_documents st ! i))
      \<and> dom out' = dom out \<union> set (take (length (list_documents st)) files)
      \<and> (distinct files \<longrightarrow>
           (\<forall>i < length (list_documents st). out' (files ! i) = Some (list_documents st ! i)))"
proof -
  let ?n = "length (list_documents st)"
  from loader_loop_Inl [OF assms] have n: "?n < length files"
    and p: "list_all2 (processed W) (take ?n files) (list_documents st)"
    and f: "file_names st = take ?n files \<or> file_names st = take (Suc ?n) files"
    by (auto simp: initial_def)
  from f n have le: "?n \<le> length (file_names st)" by auto
  from f n have tk: "take ?n (file_names st) = take ?n files" by (auto simp: min_def)
  have nth: "file_names st ! i = files ! i" if "i < ?n" for i
  proof -
    have "file_names st ! i = take ?n (file_names st) ! i" using that by simp
    also have "\<dots> = files ! i" unfolding tk using that by simp
    finally show ?thesis .
  qed
  have a: "\<forall>i < ?n. processed W (files ! i) (list_documents st ! i)"
  proof (intro allI impI)
    fix i assume i: "i < ?n"
    with n have "i < length (take ?n files)" by simp
    with p have "processed W (take ?n files ! i) (list_documents st ! i)"
      by (rule list_all2_nthD)
    with i show "processed W (files ! i) (list_documents st ! i)" by simp
  qed
  from writer_prefix [OF le, of out] obtain out'
    where w: "writer st out = Inr out'"
      and d: "dom out' = dom out \<union> set (take ?n (file_names st))"
      and h: "distinct (take ?n (file_names st)) \<longrightarrow>
           (\<forall>i < ?n. out' (file_names st ! i) = Some (list_documents st ! i))"
    by blast
  have h': "\<forall>i < ?n. out' (files ! i) = Some (list_documents st ! i)" if "distinct files"
  proof -
    from that have "distinct (take ?n files)" by (rule distinct_take)
    with h tk have "\<forall>i < ?n. out' (file_names st ! i) = Some (list_documents st ! i)" by simp
    with nth show ?thesis by simp
  qed
  from w n a d h' tk show ?thesis by auto
qed

subsection \<open>Evaluation\<close>

lemma english_closed: "apostrophe_closed english_stopwords"
  by (simp add: apostrophe_closed_def english_stopwords_def py_def apo_def is_ascii_lower_def)

lemma english_short: "list_all (\<lambda>v. length v < 11) english_stopwords"
  by (simp add: english_stopwords_def py_def apo_def)

lemma toy_empty_doc: "spacy_doc [] (toy_model [])"
  by (simp add: toy_model_def spacy_doc_def py_split_def)

lemma analyse_Nil:
  assumes "spacy_doc [] (model W [])"
  shows "analyse W [] = Inr []"
  using process_text_Nil(1,2) [OF assms] by (simp add: analyse_def)

lemma example_clean_1:
  "clean latin1 english_stopwords
     (str_lower (\<lambda>s i. [s ! i]) (py ''The Plants are Growing rapidly in 2021.''))
   = py ''plants growing rapidly''"
  by code_simp

lemma example_clean_2:
  "clean latin1 english_stopwords (str_lower (\<lambda>s i. [s ! i]) (py ''123 !!! 456'')) = []"
  by code_simp

lemma example_lemmas:
  "join [SP] (map tok_lemma (tokens (toy_model (py ''plants growing rapidly''))))
   = py ''plants growing rapidly''"
  by code_simp

lemma example_nouns:
  "noun_text (toy_model (py ''plants growing rapidly'')) = py '' plants growing rapidly''"
  by code_simp

lemma example_processed:
  "processed (toy_world example_dir) (py ''doc1.txt'') (py '' plants growing rapidly'')"
  "processed (toy_world example_dir) (py ''notes.md'') []"
  "processed (toy_world example_dir) (py ''empty'') []"
proof -
  let ?W = "toy_world example_dir"
  have len: "length (py ''plants growing rapidly'') \<le> 6000000" by (simp add: py_def)
  then have len': "length (py ''plants growing rapidly'') \<le> 60000000" by simp
  have e: "spacy_doc [] (model ?W [])" by (simp add: toy_world_def toy_empty_doc)
  have "analyse ?W (py ''plants growing rapidly'') = Inr (py '' plants growing rapidly'')"
    using lemmaspacy_ok [OF len', of toy_model] extract_nouns_ok [OF len, of ?W]
    by (simp add: analyse_def toy_world_def example_lemmas example_nouns)
  then have 1: "process_text ?W (py ''The Plants are Growing rapidly in 2021.'')
      = Inr (py '' plants growing rapidly'')"
    by (simp add: process_text_def toy_world_def example_clean_1)
  have 2: "process_text ?W (py ''123 !!! 456'') = Inr []"
    using analyse_Nil [OF e] by (simp add: process_text_def toy_world_def example_clean_2)
  have 3: "process_text ?W [] = Inr []" using e by (rule process_text_Nil(3))
  have o1: "codecs_open ?W (py ''doc1.txt'')
      = Inr (Text (py ''The Plants are Growing rapidly in 2021.''))"
    by (simp add: codecs_open_def toy_world_def example_dir_def)
  have o2: "codecs_open ?W (py ''notes.md'') = Inr (Text (py ''123 !!! 456''))"
    by (simp add: codecs_open_def toy_world_def example_dir_def py_def)
  have o3: "codecs_open ?W (py ''empty'') = Inr (Text [])"
    by (simp add: codecs_open_def toy_world_def example_dir_def py_def)
  from 1 o1 show "processed ?W (py ''doc1.txt'') (py '' plants growing rapidly'')"
    unfolding processed_def by blast
  from 2 o2 show "processed ?W (py ''notes.md'') []" unfolding processed_def by blast
  from 3 o3 show "processed ?W (py ''empty'') []" unfolding processed_def by blast
qed

lemma example_loader: "loader (toy_world example_dir) = Inr example_state"
proof -
  have "text_files (toy_world example_dir) = Some example_dir" by (simp add: toy_world_def)
  then have "loader (toy_world example_dir)
      = loader_loop (toy_world example_dir) initial [py ''doc1.txt'', py ''notes.md'', py ''empty'']"
    by (simp add: loader_def example_dir_def)
  also have "\<dots> = Inr example_state"
    by (simp add: loader_body_total [OF example_processed(1)]
        loader_body_total [OF example_processed(2)] loader_body_total [OF example_processed(3)]
        initial_def example_state_def)
  finally show ?thesis .
qed

lemma example_files: "text_files (toy_world example_dir) = Some example_dir"
  by (simp add: toy_world_def)


lemma str_lower_lower:
  assumes "\<forall>c \<in> set s. is_ascii_lower c"
  shows "str_lower L s = s"
proof -
  have "map (\<lambda>i. if s ! i < 128 then [ascii_lower (s ! i)] else L s i) [0 ..< length s]
      = map (\<lambda>i. [s ! i]) [0 ..< length s]"
  proof (rule map_cong [OF refl])
    fix i assume "i \<in> set [0 ..< length s]"
    then have "s ! i \<in> set s" by simp
    with assms have "is_ascii_lower (s ! i)" by blast
    then show "(if s ! i < 128 then [ascii_lower (s ! i)] else L s i) = [s ! i]"
      by (simp add: is_ascii_lower_def ascii_lower_def is_ascii_upper_def)
  qed
  then have "str_lower L s = concat (map (\<lambda>i. [s ! i]) [0 ..< length s])"
    by (simp only: str_lower_def)
  also have "\<dots> = map (\<lambda>i. s ! i) [0 ..< length s]" by (rule concat_map_singleton)
  also have "\<dots> = s" by (rule map_nth)
  finally show ?thesis .
qed

lemma long_text_length: "length long_text = 60000001"
  by (simp only: long_text_def length_replicate)

lemma long_text_lower: "\<forall>c \<in> set long_text. is_ascii_lower c"
  by (simp add: long_text_def is_ascii_lower_def)

lemma long_text_clean:
  "clean latin1 english_stopwords (str_lower L long_text) = long_text"
proof -
  have "long_text \<notin> set english_stopwords"
  proof
    assume "long_text \<in> set english_stopwords"
    with english_short have "length long_text < 11" by (simp add: list_all_iff)
    then show False by (simp add: long_text_length)
  qed
  moreover have "2 < length long_text" by (simp add: long_text_length)
  ultimately have "\<forall>w \<in> set [long_text]. 2 < length w \<and> w \<notin> set english_stopwords
      \<and> (\<forall>c \<in> set w. is_ascii_lower c \<or> is_ascii_upper c)"
    using long_text_lower by simp
  with english_plain have "clean latin1 english_stopwords (join [SP] [long_text])
      = join [SP] [long_text]"
    by (rule clean_fixed)
  then show ?thesis by (simp add: str_lower_lower [OF long_text_lower])
qed


lemma example_documents:
  "list_documents example_state = [py '' plants growing rapidly'', [], []]"
  by (simp add: example_state_def)

section \<open>The claims\<close>

text \<open>
  Claim C1, as amended.  For every input string the output of \<open>clean\<close> contains no digit
  and consists of ASCII letters and spaces only, and none of its whitespace-separated
  tokens is shorter than three characters.  When the input has no uppercase ASCII letter,
  as the text that the loader passes after \<open>lower()\<close>, the letters of the output are all
  in a-z.  Uppercase letters of the input stay: the class \<open>[^a-zA-Z0-9]\<close> keeps them.
\<close>

theorem clean_output:
  assumes "plain_words sw"
  shows "no_digits T (clean T sw s) \<and> letters_and_spaces (clean T sw s)
       \<and> (no_upper s \<longrightarrow> lower_and_spaces (clean T sw s))
       \<and> no_short_token T (clean T sw s)"
proof -
  let ?ws = "kept T sw s"
  have out: "clean T sw s = join [SP] ?ws" using assms by (rule clean_normal_form)
  have ch: "c = SP \<or> ((is_ascii_lower c \<or> is_ascii_upper c) \<and> (c \<in> set s \<or> c = 101))"
    if "c \<in> set (join [SP] ?ws)" for c
  proof -
    from that set_join [of "[SP]" ?ws] have "c = SP \<or> (\<exists>w \<in> set ?ws. c \<in> set w)" by auto
    then show ?thesis using kept_mem(3) by blast
  qed
  have 1: "no_digits T (join [SP] ?ws)"
    unfolding no_digits_def list_all_iff
  proof
    fix c assume "c \<in> set (join [SP] ?ws)"
    from ch [OF this] show "\<not> isdecimal T c"
      using letter_not_decimal [of c T] SP_not_decimal [of T] by blast
  qed
  have 2: "letters_and_spaces (join [SP] ?ws)"
    unfolding letters_and_spaces_def list_all_iff using ch by blast
  have 3: "lower_and_spaces (join [SP] ?ws)" if nu: "no_upper s"
    unfolding lower_and_spaces_def list_all_iff
  proof
    fix c assume "c \<in> set (join [SP] ?ws)"
    from ch [OF this] nu show "is_ascii_lower c \<or> c = SP"
      by (auto simp: no_upper_def list_all_iff is_ascii_upper_def is_ascii_lower_def)
  qed
  have "py_split T (join [SP] ?ws) = ?ws"
    unfolding py_split_def using kept_words(1,3) by (intro runs_join) auto
  then have 4: "no_short_token T (join [SP] ?ws)"
    unfolding no_short_token_def list_all_iff using kept_mem(1) by fastforce
  from 1 2 3 4 out show ?thesis by simp
qed

theorem clean_output_witness:
  "plain_words english_stopwords
   \<and> no_upper (py ''the plants are growing rapidly in 2021.'')
   \<and> no_digits latin1 (clean latin1 english_stopwords (py ''the plants are growing rapidly in 2021.''))
   \<and> lower_and_spaces (clean latin1 english_stopwords (py ''the plants are growing rapidly in 2021.''))
   \<and> no_short_token latin1
        (clean latin1 english_stopwords (py ''the plants are growing rapidly in 2021.''))"
proof -
  have u: "no_upper (py ''the plants are growing rapidly in 2021.'')"
    by (simp add: no_upper_def py_def is_ascii_upper_def)
  from clean_output [OF english_plain, of latin1 "py ''the plants are growing rapidly in 2021.''"]
    u english_plain
  show ?thesis by blast
qed

text \<open>
  Claim C1 as stated, for every input string, fails on an input with uppercase
  letters: \<open>clean("ABC")\<close> is \<open>"ABC"\<close>.
\<close>

theorem clean_output_counterexample:
  "\<not> (no_digits latin1 (clean latin1 english_stopwords (py ''ABC''))
      \<and> lower_and_spaces (clean latin1 english_stopwords (py ''ABC''))
      \<and> no_short_token latin1 (clean latin1 english_stopwords (py ''ABC'')))"
  by code_simp

text \<open>
  Claim C2.  The Cleaner is idempotent: for every input string,
  \<open>clean(clean(s)) == clean(s)\<close>.
\<close>

theorem clean_idempotent:
  assumes "plain_words sw"
  shows "clean T sw (clean T sw s) = clean T sw s"
proof -
  have "\<forall>w \<in> set (kept T sw s). 2 < length w \<and> w \<notin> set sw
          \<and> (\<forall>c \<in> set w. is_ascii_lower c \<or> is_ascii_upper c)"
    using kept_mem by blast
  with assms have "clean T sw (join [SP] (kept T sw s)) = join [SP] (kept T sw s)"
    by (rule clean_fixed)
  with clean_normal_form [OF assms, of T s] show ?thesis by simp
qed

theorem clean_idempotent_witness:
  "plain_words english_stopwords
   \<and> clean latin1 english_stopwords
        (clean latin1 english_stopwords (py ''The Plants are Growing rapidly in 2021.''))
     = clean latin1 english_stopwords (py ''The Plants are Growing rapidly in 2021.'')"
  using clean_idempotent [OF english_plain, of latin1 "py ''The Plants are Growing rapidly in 2021.''"]
    english_plain
  by blast

text \<open>
  Claim C3.  For every input string \<open>clean(s)\<close> is the composition of the nine rules of
  the specification in their order: \<open>spec_clean\<close>, written from the words of the
  rules.  The steps differ in three places (step 1 replaces every non-word character and
  not every run, step 8 takes the whitespace after a stopword with it, step 9 collapses
  runs of the space only); the compositions agree.
\<close>

theorem clean_refines_spec:
  assumes "plain_words sw"
  shows "clean T sw s = spec_clean T sw s"
  using clean_normal_form [OF assms] spec_clean_normal_form by simp

theorem clean_refines_spec_witness:
  "plain_words english_stopwords
   \<and> clean latin1 english_stopwords (py ''a!!b the 12 x_y1z'')
     = spec_clean latin1 english_stopwords (py ''a!!b the 12 x_y1z'')"
  using clean_refines_spec [OF english_plain, of latin1 "py ''a!!b the 12 x_y1z''"] english_plain
  by blast

text \<open>
  Claim C4.  For every input string made only of stopwords of the list, separated by
  whitespace, the Cleaner returns the empty string.  The list is a parameter; what is
  used of it is that the contractions leave only stopwords and short pieces, as the
  English list does.
\<close>

theorem stopwords_only_empty:
  assumes "plain_words sw" and "apostrophe_closed sw" and "all_stopwords T sw s"
  shows "clean T sw s = []"
proof -
  have sw: "\<forall>v \<in> set (py_split T s). v \<in> set sw"
    using assms(3) by (simp add: all_stopwords_def list_all_iff)
  have "\<not> (2 < length u \<and> u \<notin> set sw)" if "u \<in> set (toks T (prepared T s))" for u
  proof -
    from that stopword_text_tokens [OF assms(1,3)]
    obtain v where v: "v \<in> set (py_split T s)" "u \<in> set (runs is_ascii_lower v)" by auto
    with sw have "v \<in> set sw" by blast
    with assms(2) v(2) show ?thesis by (auto simp: apostrophe_closed_def list_all_iff)
  qed
  then have "kept T sw s = []" by (auto simp: kept_def filter_empty_conv)
  with clean_normal_form [OF assms(1), of T s] show ?thesis by simp
qed

theorem stopwords_only_empty_witness:
  "plain_words english_stopwords \<and> apostrophe_closed english_stopwords
   \<and> all_stopwords latin1 english_stopwords (apo ''don'' ''t you'')
   \<and> clean latin1 english_stopwords (apo ''don'' ''t you'') = []"
proof -
  have a: "all_stopwords latin1 english_stopwords (apo ''don'' ''t you'')" by code_simp
  from stopwords_only_empty [OF english_plain english_closed a] a english_plain english_closed
  show ?thesis by blast
qed



text \<open>
  Claim C6.  When the text handed to the lemmatizer is longer than the maximum length
  that \<open>lemmaspacy\<close> configures (60000000), \<open>lemmaspacy\<close> raises: the processing
  of that document fails, nothing is appended to \<open>list_documents\<close> for it, and the loop
  does not go on to retry it or to read another file.  The text is never cut to fit: up
  to the maximum length the pipeline is given the whole text.
\<close>

theorem lemmatizer_overflow_fatal:
  assumes "60000000 < length (clean (unicode W) (stopwords W) (str_lower (lower_map W) raw))"
    and "codecs_open W file = Inr (Text raw)"
  shows "lemmaspacy (model W) (clean (unicode W) (stopwords W) (str_lower (lower_map W) raw))
           = Inl ValueError
       \<and> process_text W raw = Inl ValueError
       \<and> loader_body W st file = Inl (ValueError, st\<lparr>file_names := file_names st @ [file]\<rparr>)
       \<and> loader_loop W st (file # files)
           = Inl (ValueError, st\<lparr>file_names := file_names st @ [file]\<rparr>)
       \<and> (\<forall>s. length s \<le> 60000000 \<longrightarrow>
             lemmaspacy (model W) s = Inr (join [SP] (map tok_lemma (tokens (model W s)))))"
proof -
  let ?s = "clean (unicode W) (stopwords W) (str_lower (lower_map W) raw)"
  have 1: "lemmaspacy (model W) ?s = Inl ValueError" using assms(1) by (rule lemmaspacy_overflow)
  then have 2: "process_text W raw = Inl ValueError" by (simp add: process_text_def analyse_def)
  have 3: "loader_body W st file = Inl (ValueError, st\<lparr>file_names := file_names st @ [file]\<rparr>)"
    using assms(2) 2 by (simp add: loader_body_def corpus_read_def Let_def)
  then have 4: "loader_loop W st (file # files)
      = Inl (ValueError, st\<lparr>file_names := file_names st @ [file]\<rparr>)" by simp
  have 5: "\<forall>s. length s \<le> 60000000 \<longrightarrow>
      lemmaspacy (model W) s = Inr (join [SP] (map tok_lemma (tokens (model W s))))"
    by (simp add: lemmaspacy_ok)
  from 1 2 3 4 5 show ?thesis by blast
qed

theorem lemmatizer_overflow_fatal_witness:
  "60000000 < length (clean (unicode (toy_world [(py ''big.txt'', Text long_text)]))
                        (stopwords (toy_world [(py ''big.txt'', Text long_text)]))
                        (str_lower (lower_map (toy_world [(py ''big.txt'', Text long_text)])) long_text))
   \<and> codecs_open (toy_world [(py ''big.txt'', Text long_text)]) (py ''big.txt'') = Inr (Text long_text)
   \<and> process_text (toy_world [(py ''big.txt'', Text long_text)]) long_text = Inl ValueError
   \<and> loader_loop (toy_world [(py ''big.txt'', Text long_text)]) initial [py ''big.txt'']
       = Inl (ValueError, initial\<lparr>file_names := file_names initial @ [py ''big.txt'']\<rparr>)
   \<and> length (py ''plants'') \<le> 60000000
   \<and> lemmaspacy (model (toy_world [(py ''big.txt'', Text long_text)])) (py ''plants'')
       = Inr (join [SP] (map tok_lemma
               (tokens (model (toy_world [(py ''big.txt'', Text long_text)]) (py ''plants'')))))"
proof -
  let ?W = "toy_world [(py ''big.txt'', Text long_text)]"
  have "clean (unicode ?W) (stopwords ?W) (str_lower (lower_map ?W) long_text) = long_text"
    by (simp add: toy_world_def long_text_clean)
  then have h1: "60000000 < length (clean (unicode ?W) (stopwords ?W)
      (str_lower (lower_map ?W) long_text))"
    by (simp add: long_text_length)
  have h2: "codecs_open ?W (py ''big.txt'') = Inr (Text long_text)"
    by (simp add: codecs_open_def toy_world_def)
  have h3: "length (py ''plants'') \<le> 60000000" by (simp add: py_def)
  note t = lemmatizer_overflow_fatal [OF h1 h2, of initial "[]"]
  note t2 = t [THEN conjunct2]
  note t3 = t2 [THEN conjunct2]
  note t4 = t3 [THEN conjunct2]
  have 5: "lemmaspacy (model ?W) (py ''plants'')
        = Inr (join [SP] (map tok_lemma (tokens (model ?W (py ''plants'')))))"
    using t4 [THEN conjunct2, rule_format, OF h3] .
  show ?thesis
    using h1 h2 t2 [THEN conjunct1] t4 [THEN conjunct1] h3 5 by (intro conjI)
qed





text \<open>
  Claim C10.  The loader takes every entry of the directory listing as it comes, whatever
  its name or extension: when it returns, \<open>file_names\<close> is the whole listing and every
  entry was opened as UTF-8 text and went through the pipeline; and it returns whenever
  every entry can be opened, decoded and processed, which does not depend on the names.
\<close>

theorem loader_reads_every_entry:
  assumes "text_files W = Some dir"
  shows "(loader W = Inr st \<longrightarrow>
            file_names st = map fst dir
            \<and> (\<forall>i < length dir. processed W (fst (dir ! i)) (list_documents st ! i)))
       \<and> ((\<forall>f \<in> fst ` set dir. \<exists>d. processed W f d) \<longrightarrow> (\<exists>st'. loader W = Inr st'))"
proof (intro conjI impI)
  assume "loader W = Inr st"
  with assms have l: "loader_loop W initial (map fst dir) = Inr st" by (simp add: loader_Some)
  note s = loader_state [OF l]
  show "file_names st = map fst dir" by (rule s(1))
  show "\<forall>i < length dir. processed W (fst (dir ! i)) (list_documents st ! i)"
  proof (intro allI impI)
    fix i assume i: "i < length dir"
    then have "i < length (map fst dir)" by simp
    with s(2) have "processed W (map fst dir ! i) (list_documents st ! i)"
      by (rule list_all2_nthD)
    with i show "processed W (fst (dir ! i)) (list_documents st ! i)" by simp
  qed
next
  assume "\<forall>f \<in> fst ` set dir. \<exists>d. processed W f d"
  then have "\<forall>f \<in> set (map fst dir). \<exists>d. processed W f d" by simp
  from loader_loop_total [OF this, of initial] assms show "\<exists>st'. loader W = Inr st'"
    by (simp add: loader_Some)
qed

theorem loader_reads_every_entry_witness:
  "text_files (toy_world example_dir) = Some example_dir
   \<and> loader (toy_world example_dir) = Inr example_state
   \<and> file_names example_state = map fst example_dir
   \<and> py ''notes.md'' \<in> set (file_names example_state)
   \<and> processed (toy_world example_dir) (py ''notes.md'') []
   \<and> (\<exists>d. processed (toy_world example_dir) (py ''doc1.txt'') d)
   \<and> (\<exists>d. processed (toy_world example_dir) (py ''notes.md'') d)
   \<and> (\<exists>d. processed (toy_world example_dir) (py ''empty'') d)
   \<and> (\<exists>st'. loader (toy_world example_dir) = Inr st')"
proof -
  note t = loader_reads_every_entry [OF example_files, of example_state]
  from t example_loader have a: "file_names example_state = map fst example_dir"
    and b: "\<forall>i < length example_dir.
         processed (toy_world example_dir) (fst (example_dir ! i)) (list_documents example_state ! i)"
    by blast+
  have c: "\<forall>f \<in> fst ` set example_dir. \<exists>d. processed (toy_world example_dir) f d"
  proof
    fix f assume "f \<in> fst ` set example_dir"
    then obtain e where "e \<in> set example_dir" "f = fst e" by blast
    then obtain i where "i < length example_dir" "f = fst (example_dir ! i)"
      by (auto simp: in_set_conv_nth)
    with b show "\<exists>d. processed (toy_world example_dir) f d" by blast
  qed
  have s: "fst ` set example_dir = {py ''doc1.txt'', py ''notes.md'', py ''empty''}"
    by (simp add: example_dir_def)
  from c have c': "\<exists>d. processed (toy_world example_dir) (py ''doc1.txt'') d"
    "\<exists>d. processed (toy_world example_dir) (py ''notes.md'') d"
    "\<exists>d. processed (toy_world example_dir) (py ''empty'') d"
    unfolding s by simp_all
  have "processed (toy_world example_dir) (fst (example_dir ! 1))
      (list_documents example_state ! 1)"
    using b [rule_format, of 1] by (simp add: example_dir_def)
  then have p: "processed (toy_world example_dir) (py ''notes.md'') []"
    by (simp add: example_documents example_dir_def)
  have n: "py ''notes.md'' \<in> set (file_names example_state)" by (simp add: example_state_def)
  from t c have "\<exists>st'. loader (toy_world example_dir) = Inr st'" by blast
  with example_files example_loader a p c' n show ?thesis by blast
qed

end
